theory Spec2Isabelle
  imports Complex_Main "HOL-Library.Monad_Syntax"
begin

section \<open>Data model\<close>

text \<open>
  A shallow embedding of \<^verbatim>\<open>src/finders/IDAStarFinder.js\<close>.

  JavaScript numbers are idealised: a finite number is a \<^typ>\<open>real\<close>, so
  \<^verbatim>\<open>Math.SQRT2\<close> is \<^term>\<open>sqrt 2\<close> and additions do not round; the value
  \<^verbatim>\<open>Infinity\<close> is a constructor of its own. \<^verbatim>\<open>NaN\<close> is not modelled: the
  heuristic is taken to return a finite number.

  A \<^verbatim>\<open>Node\<close> of the grid is identified with its coordinate pair (the grid holds one
  node object per cell, so the reference comparison \<^verbatim>\<open>node == end\<close> is equality of
  coordinates). The two fields that the finder adds to a node, \<^verbatim>\<open>retainCount\<close> and
  \<^verbatim>\<open>tested\<close>, live in a store from nodes to \<open>node_info\<close>; \<open>None\<close> is
  JavaScript's \<^verbatim>\<open>undefined\<close>.
\<close>

record node =
  x :: int
  y :: int

text \<open>
  Modelled from the spec: the enumeration of \<^verbatim>\<open>../core/DiagonalMovement\<close>, of which the
  finder names three values.
\<close>

datatype DiagonalMovement = Never | IfAtMostOneObstacle | OnlyWhenNoObstacles

text \<open>
  The grid is a collaborator of the finder: its two methods that \<^verbatim>\<open>findPath\<close> calls
  are taken as parameters.
\<close>

record grid =
  getNodeAt :: "int \<Rightarrow> int \<Rightarrow> node"
  getNeighbors :: "node \<Rightarrow> DiagonalMovement \<Rightarrow> node list"

datatype num = Fin real | Infinity

text \<open>What \<^verbatim>\<open>search\<close> returns: a number (a new cut-off) or the node that was found.\<close>

datatype sres = Number num | Found node

record node_info =
  retainCount :: "int option"
  tested :: "bool option"

text \<open>
  The mutable state of one \<^verbatim>\<open>findPath\<close> call: the array \<^verbatim>\<open>route\<close> (a hole of the
  sparse array is \<open>None\<close>), the fields of the grid's nodes, the counter
  \<^verbatim>\<open>visitedNode\<close>, and the number of times the wall clock has been read.
\<close>

record state =
  route :: "(int \<times> int) option list"
  nodes :: "node \<Rightarrow> node_info"
  visitedNode :: nat
  ticks :: nat

text \<open>
  The wall clock is an oracle: \<open>clock n\<close> is the value, in milliseconds, of the
  \<open>n\<close>-th evaluation of \<^verbatim>\<open>new Date().getTime()\<close> during the call (the reading
  number 0 is \<^verbatim>\<open>startTime\<close>).
\<close>

type_synonym clock = "nat \<Rightarrow> int"

text \<open>The module \<^verbatim>\<open>../core/Heuristic\<close>, of which the constructor uses two members.\<close>

record Heuristic =
  manhattan :: "int \<Rightarrow> int \<Rightarrow> real"
  octile :: "int \<Rightarrow> int \<Rightarrow> real"

text \<open>The argument \<^verbatim>\<open>opt\<close> of the constructor; an absent property is \<open>None\<close>.\<close>

record options =
  opt_allowDiagonal :: "bool option"
  opt_dontCrossCorners :: "bool option"
  opt_diagonalMovement :: "DiagonalMovement option"
  opt_heuristic :: "(int \<Rightarrow> int \<Rightarrow> real) option"
  opt_weight :: "real option"
  opt_trackRecursion :: "bool option"
  opt_timeLimit :: "num option"

text \<open>
  The fields of the finder that \<^verbatim>\<open>findPath\<close> reads (\<^verbatim>\<open>allowDiagonal\<close> and
  \<^verbatim>\<open>dontCrossCorners\<close> are only read by the constructor).
\<close>

record finder =
  diagonalMovement :: DiagonalMovement
  heuristic :: "int \<Rightarrow> int \<Rightarrow> real"
  weight :: real
  trackRecursion :: bool
  timeLimit :: num

section \<open>The constructor\<close>

text \<open>
  \<^verbatim>\<open>a || b\<close> on an optional number: \<^verbatim>\<open>undefined\<close> and \<^verbatim>\<open>0\<close> are falsy.
\<close>

definition IDAStarFinder :: "Heuristic \<Rightarrow> options \<Rightarrow> finder" where
  "IDAStarFinder H opt =
     (let dm = (case opt_diagonalMovement opt of
                  Some d \<Rightarrow> d
                | None \<Rightarrow>
                    if opt_allowDiagonal opt \<noteq> Some True then Never
                    else if opt_dontCrossCorners opt = Some True then OnlyWhenNoObstacles
                    else IfAtMostOneObstacle)
      in \<lparr>diagonalMovement = dm,
          heuristic = (case opt_heuristic opt of
                         Some hf \<Rightarrow> hf
                       | None \<Rightarrow> if dm = Never then manhattan H else octile H),
          weight = (case opt_weight opt of
                      None \<Rightarrow> 1
                    | Some w \<Rightarrow> if w = 0 then 1 else w),
          trackRecursion = (case opt_trackRecursion opt of None \<Rightarrow> False | Some b \<Rightarrow> b),
          timeLimit = (case opt_timeLimit opt of
                         None \<Rightarrow> Infinity
                       | Some (Fin l) \<Rightarrow> if l = 0 then Infinity else Fin l
                       | Some Infinity \<Rightarrow> Infinity)\<rparr>)"

section \<open>The search\<close>

text \<open>\<^verbatim>\<open>t < min\<close> on numbers.\<close>

fun num_less :: "num \<Rightarrow> num \<Rightarrow> bool" where
  "num_less (Fin a) (Fin b) = (a < b)"
| "num_less (Fin a) Infinity = True"
| "num_less Infinity _ = False"

text \<open>\<^verbatim>\<open>this.timeLimit > 0\<close>.\<close>

fun num_pos :: "num \<Rightarrow> bool" where
  "num_pos (Fin l) = (0 < l)"
| "num_pos Infinity = True"

text \<open>\<^verbatim>\<open>elapsed > this.timeLimit*1000\<close>.\<close>

fun exceeds :: "real \<Rightarrow> num \<Rightarrow> bool" where
  "exceeds e (Fin l) = (l * 1000 < e)"
| "exceeds e Infinity = False"

definition h :: "finder \<Rightarrow> node \<Rightarrow> node \<Rightarrow> real" where
  "h fd a b = heuristic fd (abs (x b - x a)) (abs (y b - y a))"

definition cost :: "node \<Rightarrow> node \<Rightarrow> real" where
  "cost a b = (if x a = x b \<or> y a = y b then 1 else sqrt 2)"

text \<open>
  \<^verbatim>\<open>route[i] = v\<close> on a JavaScript array: an index past the end extends the array
  and leaves holes.
\<close>

definition set_at :: "'a option list \<Rightarrow> nat \<Rightarrow> 'a \<Rightarrow> 'a option list" where
  "set_at xs i v =
     (if i < length xs then xs[i := Some v]
      else xs @ replicate (i - length xs) None @ [Some v])"

text \<open>
  Lines 122 to 127: \<^verbatim>\<open>neighbor.retainCount = neighbor.retainCount + 1 || 1\<close> (an
  undefined count, and a count of \<open>-1\<close>, give 1) and \<^verbatim>\<open>neighbor.tested = true\<close>.
\<close>

definition retain :: "finder \<Rightarrow> node \<Rightarrow> state \<Rightarrow> state" where
  "retain fd nb st =
     (if trackRecursion fd then
        st\<lparr>nodes := (nodes st)(nb := \<lparr>retainCount =
               (case retainCount (nodes st nb) of
                  None \<Rightarrow> Some 1
                | Some c \<Rightarrow> if c + 1 = 0 then Some 1 else Some (c + 1)),
             tested = Some True\<rparr>)\<rparr>
      else st)"

text \<open>
  Line 136: \<^verbatim>\<open>if (this.trackRecursion && (--neighbor.retainCount) === 0) neighbor.tested = false\<close>.
  The count is a number there, line 124 having set it; the branch for an undefined count
  is never taken.
\<close>

definition release :: "finder \<Rightarrow> node \<Rightarrow> state \<Rightarrow> state" where
  "release fd nb st =
     (if trackRecursion fd then
        (case retainCount (nodes st nb) of
           None \<Rightarrow> st
         | Some c \<Rightarrow>
             st\<lparr>nodes := (nodes st)(nb := \<lparr>retainCount = Some (c - 1),
                  tested = (if c - 1 = 0 then Some False else tested (nodes st nb))\<rparr>)\<rparr>)
      else st)"

text \<open>
  Lines 102 and 103. The clock is read only when \<^verbatim>\<open>this.timeLimit > 0\<close> holds
  (\<^verbatim>\<open>&&\<close> is short-circuit).
\<close>

definition time_check :: "finder \<Rightarrow> clock \<Rightarrow> int \<Rightarrow> state \<Rightarrow> bool \<times> state" where
  "time_check fd clock startTime st =
     (if num_pos (timeLimit fd)
      then (exceeds (real_of_int (clock (ticks st) - startTime)) (timeLimit fd),
            st\<lparr>ticks := Suc (ticks st)\<rparr>)
      else (False, st))"

text \<open>
  The \<^verbatim>\<open>for\<close> loop of lines 119 to 140 over the neighbours that are left, \<open>rec\<close>
  being the recursive call of line 129. The loop's condition \<^verbatim>\<open>neighbor = neighbors[i]\<close>
  ends it at the end of the array, a node object being truthy.
\<close>

fun neighbors_loop ::
  "(node \<Rightarrow> state \<Rightarrow> (sres \<times> state) option) \<Rightarrow> finder \<Rightarrow> node \<Rightarrow> nat \<Rightarrow>
   node list \<Rightarrow> num \<Rightarrow> state \<Rightarrow> (sres \<times> state) option" where
  "neighbors_loop rec fd nd depth [] minv st = Some (Number minv, st)"
| "neighbors_loop rec fd nd depth (neighbor # rest) minv st =
     rec neighbor (retain fd neighbor st) \<bind> (\<lambda>(t, st1).
       case t of
         Found e \<Rightarrow> Some (Found e, st1\<lparr>route := set_at (route st1) depth (x nd, y nd)\<rparr>)
       | Number tn \<Rightarrow>
           neighbors_loop rec fd nd depth rest
             (if num_less tn minv then tn else minv) (release fd neighbor st1))"

lemma neighbors_loop_mono [partial_function_mono]:
  assumes "\<And>nb st. mono_option (\<lambda>f. B f nb st)"
  shows "mono_option (\<lambda>f. neighbors_loop (B f) fd nd depth ns minv st)"
proof (induction ns arbitrary: minv st)
  case Nil
  show ?case by (simp add: option.const_mono)
next
  case (Cons nb rest)
  show ?case
    apply simp
    apply (rule bind_mono)
     apply (rule assms)
    apply (simp only: split_def)
    subgoal for p
      apply (cases "fst p")
       apply (simp_all add: option.const_mono Cons.IH)
      done
    done
qed

text \<open>
  The closure \<^verbatim>\<open>search\<close> of lines 99 to 143. Nothing bounds its recursion, so a call
  that does not return is \<open>None\<close>.
\<close>

partial_function (option) search ::
  "finder \<Rightarrow> grid \<Rightarrow> clock \<Rightarrow> int \<Rightarrow> node \<Rightarrow>
   node \<Rightarrow> real \<Rightarrow> real \<Rightarrow> nat \<Rightarrow> state \<Rightarrow> (sres \<times> state) option" where
  "search fd gr clock startTime goal nd g cutoff depth st =
     (case time_check fd clock startTime (st\<lparr>visitedNode := Suc (visitedNode st)\<rparr>) of
        (expired, st0) \<Rightarrow>
          if expired then Some (Number Infinity, st0)
          else let f = g + h fd nd goal * weight fd in
            if f > cutoff then Some (Number (Fin f), st0)
            else if nd = goal
              then Some (Found nd, st0\<lparr>route := set_at (route st0) depth (x nd, y nd)\<rparr>)
            else neighbors_loop
                   (\<lambda>neighbor s. search fd gr clock startTime goal neighbor
                                   (g + cost nd neighbor) cutoff (depth + 1) s)
                   fd nd depth (getNeighbors gr nd (diagonalMovement fd)) Infinity st0)"

text \<open>The loop \<^verbatim>\<open>for(j=0; true; j++)\<close> of lines 150 to 160.\<close>

partial_function (option) sweeps ::
  "finder \<Rightarrow> grid \<Rightarrow> clock \<Rightarrow> int \<Rightarrow> node \<Rightarrow>
   node \<Rightarrow> real \<Rightarrow> state \<Rightarrow> ((int \<times> int) option list \<times> state) option" where
  "sweeps fd gr clock startTime goal start cutoff st =
     search fd gr clock startTime goal start 0 cutoff 0 (st\<lparr>route := []\<rparr>) \<bind> (\<lambda>(t, st1).
       case t of
         Number Infinity \<Rightarrow> Some ([], st1)
       | Found e \<Rightarrow> Some (route st1, st1)
       | Number (Fin c) \<Rightarrow> sweeps fd gr clock startTime goal start c st1)"

text \<open>Line 148: \<^verbatim>\<open>cutoff = h(start, end)\<close>.\<close>

definition initial_cutoff :: "finder \<Rightarrow> grid \<Rightarrow> int \<Rightarrow> int \<Rightarrow> int \<Rightarrow> int \<Rightarrow> real" where
  "initial_cutoff fd gr startX startY endX endY =
     h fd (getNodeAt gr startX startY) (getNodeAt gr endX endY)"

text \<open>
  \<^verbatim>\<open>findPath\<close>, given the clock and the fields of the grid's nodes before the call; it
  returns the path and the state in which the call ends.
\<close>

definition findPath ::
  "finder \<Rightarrow> clock \<Rightarrow> (node \<Rightarrow> node_info) \<Rightarrow>
   int \<Rightarrow> int \<Rightarrow> int \<Rightarrow> int \<Rightarrow> grid \<Rightarrow> ((int \<times> int) option list \<times> state) option" where
  "findPath fd clock nodes0 startX startY endX endY gr =
     sweeps fd gr clock (clock 0) (getNodeAt gr endX endY) (getNodeAt gr startX startY)
       (initial_cutoff fd gr startX startY endX endY)
       \<lparr>route = [], nodes = nodes0, visitedNode = 0, ticks = 1\<rparr>"

section \<open>Notions the properties are stated with\<close>

text \<open>
  The cut-off and the state with which iteration \<open>j\<close> of the loop of \<^verbatim>\<open>findPath\<close>
  starts; \<open>None\<close> when the loop has returned before, or a sweep does not return.
\<close>

fun sweep_at ::
  "finder \<Rightarrow> grid \<Rightarrow> clock \<Rightarrow> int \<Rightarrow> node \<Rightarrow> node \<Rightarrow> nat \<Rightarrow> real \<Rightarrow> state \<Rightarrow>
   (real \<times> state) option" where
  "sweep_at fd gr clock startTime goal start 0 cutoff st = Some (cutoff, st)"
| "sweep_at fd gr clock startTime goal start (Suc j) cutoff st =
     search fd gr clock startTime goal start 0 cutoff 0 (st\<lparr>route := []\<rparr>) \<bind> (\<lambda>(t, st1).
       case t of
         Number (Fin c) \<Rightarrow> sweep_at fd gr clock startTime goal start j c st1
       | _ \<Rightarrow> None)"

text \<open>The time check of a node examined at the clock's reading number \<open>n\<close> fires.\<close>

definition expired_at :: "finder \<Rightarrow> clock \<Rightarrow> nat \<Rightarrow> bool" where
  "expired_at fd clock n =
     (num_pos (timeLimit fd) \<and> exceeds (real_of_int (clock n - clock 0)) (timeLimit fd))"

text \<open>
  A walk of the grid: a non-empty list of nodes, each one a neighbour of the one before
  under the diagonal-movement policy; its cost is the sum of its steps' costs.
\<close>

fun is_walk :: "grid \<Rightarrow> DiagonalMovement \<Rightarrow> node list \<Rightarrow> bool" where
  "is_walk gr dm [] = False"
| "is_walk gr dm [a] = True"
| "is_walk gr dm (a # b # rest) = (b \<in> set (getNeighbors gr a dm) \<and> is_walk gr dm (b # rest))"

fun walk_cost :: "node list \<Rightarrow> real" where
  "walk_cost [] = 0"
| "walk_cost [a] = 0"
| "walk_cost (a # b # rest) = cost a b + walk_cost (b # rest)"

definition coords :: "node list \<Rightarrow> (int \<times> int) option list" where
  "coords w = map (\<lambda>n. Some (x n, y n)) w"

text \<open>
  The largest value \<^verbatim>\<open>f\<close> that \<^verbatim>\<open>search\<close> computes along a walk that it enters
  with the accumulated cost \<open>g\<close>.
\<close>

fun walk_fmax :: "finder \<Rightarrow> node \<Rightarrow> real \<Rightarrow> node list \<Rightarrow> real" where
  "walk_fmax fd goal g [] = g"
| "walk_fmax fd goal g [a] = g + h fd a goal * weight fd"
| "walk_fmax fd goal g (a # b # rest) =
     max (g + h fd a goal * weight fd) (walk_fmax fd goal (g + cost a b) (b # rest))"

text \<open>
  The values that a sweep over the nodes \<open>V\<close> can return as a bound: an accumulated
  cost, which is a sum of steps of cost 1 and of cost \<^term>\<open>sqrt 2\<close>, plus the weighted
  heuristic of a node.
\<close>

definition bound_value :: "finder \<Rightarrow> node \<Rightarrow> node set \<Rightarrow> real \<Rightarrow> real \<Rightarrow> bool" where
  "bound_value fd goal V g v =
     (\<exists>a b n. n \<in> V \<and> v = g + real a + real b * sqrt 2 + h fd n goal * weight fd)"

text \<open>
  What a call of \<^verbatim>\<open>search\<close> leaves in \<^verbatim>\<open>route\<close>: nothing new when it returns a
  number; when it returns a node, a walk from its node to the goal, written from the index
  \<open>depth\<close> on, whose cost is within the cut-off.
\<close>

definition found_ok ::
  "finder \<Rightarrow> grid \<Rightarrow> node \<Rightarrow> real \<Rightarrow> node \<Rightarrow> real \<Rightarrow> nat \<Rightarrow> state \<Rightarrow> sres \<times> state \<Rightarrow> bool" where
  "found_ok fd gr goal cutoff nd g depth st r =
     ((\<forall>tn. fst r = Number tn \<longrightarrow> route (snd r) = route st) \<and>
      (\<forall>e. fst r = Found e \<longrightarrow> length (route st) \<le> depth \<longrightarrow>
         (\<exists>p. is_walk gr (diagonalMovement fd) p \<and> hd p = nd \<and> last p = goal
            \<and> route (snd r) = route st @ replicate (depth - length (route st)) None @ coords p
            \<and> g + walk_cost p + h fd goal goal * weight fd \<le> cutoff)))"

text \<open>
  The heuristic is admissible for a goal: its value at a node never exceeds the cost of a
  walk from that node to the goal.
\<close>

definition admissible :: "finder \<Rightarrow> grid \<Rightarrow> node \<Rightarrow> bool" where
  "admissible fd gr goal =
     (\<forall>w. is_walk gr (diagonalMovement fd) w \<and> last w = goal \<longrightarrow> h fd (hd w) goal \<le> walk_cost w)"

text \<open>
  The count of a node (an undefined count reads as 0); a node whose flag \<^verbatim>\<open>tested\<close>
  is set exactly when its count is positive; a state that has the counts of an earlier
  one.
\<close>

definition cnt :: "node_info \<Rightarrow> int" where
  "cnt i = (case retainCount i of None \<Rightarrow> 0 | Some c \<Rightarrow> c)"

definition counted :: "node_info \<Rightarrow> bool" where
  "counted i = (0 \<le> cnt i \<and> (tested i = Some True) = (0 < cnt i))"

definition restored :: "state \<Rightarrow> state \<Rightarrow> bool" where
  "restored s s' =
     ((\<forall>n. counted (nodes s' n)) \<and> (\<forall>n. cnt (nodes s' n) = cnt (nodes s n)))"

subsection \<open>Grids and finders to run the search on\<close>

text \<open>
  A grid given by the list of its walkable cells, whose neighbours are the walkable cells
  above, right, below and left, in this order: a grid under the policy \<open>Never\<close>
  (the other policies are not told apart by this grid).
\<close>

definition walkable_nbrs :: "(int \<times> int) list \<Rightarrow> node \<Rightarrow> node list" where
  "walkable_nbrs cells nd =
     map (\<lambda>(a, b). \<lparr>x = a, y = b\<rparr>)
       (filter (\<lambda>c. c \<in> set cells)
          [(x nd, y nd - 1), (x nd + 1, y nd), (x nd, y nd + 1), (x nd - 1, y nd)])"

definition orth_grid :: "(int \<times> int) list \<Rightarrow> grid" where
  "orth_grid cells =
     \<lparr>getNodeAt = (\<lambda>a b. \<lparr>x = a, y = b\<rparr>),
      getNeighbors = (\<lambda>nd dm. walkable_nbrs cells nd)\<rparr>"

text \<open>
  Modelled from the spec: the members \<^verbatim>\<open>manhattan\<close> and \<^verbatim>\<open>octile\<close> of
  \<^verbatim>\<open>../core/Heuristic\<close>, which is not among the sources: the Manhattan distance, and an
  octile-distance estimate that accounts for diagonal shortcuts.
\<close>

definition manhattan_distance :: "int \<Rightarrow> int \<Rightarrow> real" where
  "manhattan_distance dx dy = real_of_int (dx + dy)"

definition octile_distance :: "int \<Rightarrow> int \<Rightarrow> real" where
  "octile_distance dx dy =
     (if dx < dy then (sqrt 2 - 1) * real_of_int dx + real_of_int dy
      else (sqrt 2 - 1) * real_of_int dy + real_of_int dx)"

definition core_heuristics :: Heuristic where
  "core_heuristics = \<lparr>manhattan = manhattan_distance, octile = octile_distance\<rparr>"

definition no_options :: options where
  "no_options = \<lparr>opt_allowDiagonal = None, opt_dontCrossCorners = None,
                  opt_diagonalMovement = None, opt_heuristic = None, opt_weight = None,
                  opt_trackRecursion = None, opt_timeLimit = None\<rparr>"

definition fresh :: "node \<Rightarrow> node_info" where
  "fresh = (\<lambda>_. \<lparr>retainCount = None, tested = None\<rparr>)"

definition plain_finder :: finder where
  "plain_finder = \<lparr>diagonalMovement = Never, heuristic = manhattan_distance, weight = 1,
                   trackRecursion = False, timeLimit = Infinity\<rparr>"

definition one_second_finder :: finder where
  "one_second_finder = plain_finder\<lparr>timeLimit := Fin 1\<rparr>"

text \<open>A clock that shows two seconds at every reading after the first.\<close>

definition late_clock :: clock where
  "late_clock n = (if n = 0 then 0 else 2000)"

text \<open>Two runs are in step: their states agree on all but the fields of the nodes.\<close>

definition same_run :: "state \<Rightarrow> state \<Rightarrow> bool" where
  "same_run s s' = (route s = route s' \<and> visitedNode s = visitedNode s' \<and> ticks s = ticks s')"

text \<open>
  A corridor of four cells whose third cell is blocked: the goal (3,0) is cut off from
  the start (0,0).
\<close>

definition walled_cells :: "(int \<times> int) list" where
  "walled_cells = [(0, 0), (1, 0), (3, 0)]"

text \<open>A grid of three columns and two rows whose cell (1,0) is blocked.\<close>

definition detour_cells :: "(int \<times> int) list" where
  "detour_cells = [(0, 0), (0, 1), (1, 1), (2, 1), (2, 0)]"

text \<open>The nodes of \<open>detour_cells\<close>, and the only walk without a repeated cell from (0,0) to (2,0).\<close>

definition detour_nodes :: "node set" where
  "detour_nodes = {\<lparr>x = 0, y = 0\<rparr>, \<lparr>x = 0, y = 1\<rparr>, \<lparr>x = 1, y = 1\<rparr>, \<lparr>x = 2, y = 1\<rparr>, \<lparr>x = 2, y = 0\<rparr>}"

definition detour_walk :: "node list" where
  "detour_walk = [\<lparr>x = 0, y = 0\<rparr>, \<lparr>x = 0, y = 1\<rparr>, \<lparr>x = 1, y = 1\<rparr>, \<lparr>x = 2, y = 1\<rparr>, \<lparr>x = 2, y = 0\<rparr>]"

section \<open>Running the search\<close>

lemma search_expired:
  "time_check fd clock startTime (st\<lparr>visitedNode := Suc (visitedNode st)\<rparr>) = (True, st0) \<Longrightarrow>
   search fd gr clock startTime goal nd g cutoff depth st = Some (Number Infinity, st0)"
  by (subst search.simps) simp

lemma search_pruned:
  "time_check fd clock startTime (st\<lparr>visitedNode := Suc (visitedNode st)\<rparr>) = (False, st0) \<Longrightarrow>
   cutoff < g + h fd nd goal * weight fd \<Longrightarrow>
   search fd gr clock startTime goal nd g cutoff depth st =
     Some (Number (Fin (g + h fd nd goal * weight fd)), st0)"
  by (subst search.simps) simp

lemma search_goal:
  "time_check fd clock startTime (st\<lparr>visitedNode := Suc (visitedNode st)\<rparr>) = (False, st0) \<Longrightarrow>
   \<not> cutoff < g + h fd goal goal * weight fd \<Longrightarrow>
   search fd gr clock startTime goal goal g cutoff depth st =
     Some (Found goal, st0\<lparr>route := set_at (route st0) depth (x goal, y goal)\<rparr>)"
  by (subst search.simps) simp

lemma search_expand:
  "time_check fd clock startTime (st\<lparr>visitedNode := Suc (visitedNode st)\<rparr>) = (False, st0) \<Longrightarrow>
   \<not> cutoff < g + h fd nd goal * weight fd \<Longrightarrow> nd \<noteq> goal \<Longrightarrow>
   search fd gr clock startTime goal nd g cutoff depth st =
     neighbors_loop
       (\<lambda>neighbor s. search fd gr clock startTime goal neighbor
                       (g + cost nd neighbor) cutoff (depth + 1) s)
       fd nd depth (getNeighbors gr nd (diagonalMovement fd)) Infinity st0"
  by (subst search.simps) simp

lemma sweeps_found:
  "search fd gr clock startTime goal start 0 cutoff 0 (st\<lparr>route := []\<rparr>) = Some (Found e, st1) \<Longrightarrow>
   sweeps fd gr clock startTime goal start cutoff st = Some (route st1, st1)"
  by (subst sweeps.simps) simp

lemma sweeps_exhausted:
  "search fd gr clock startTime goal start 0 cutoff 0 (st\<lparr>route := []\<rparr>) = Some (Number Infinity, st1) \<Longrightarrow>
   sweeps fd gr clock startTime goal start cutoff st = Some ([], st1)"
  by (subst sweeps.simps) simp

lemma sweeps_again:
  "search fd gr clock startTime goal start 0 cutoff 0 (st\<lparr>route := []\<rparr>) = Some (Number (Fin c), st1) \<Longrightarrow>
   sweeps fd gr clock startTime goal start cutoff st =
     sweeps fd gr clock startTime goal start c st1"
  by (subst sweeps.simps) simp

lemmas run_simps =
  search_expired search_pruned search_goal search_expand
  sweeps_found sweeps_exhausted sweeps_again
  findPath_def initial_cutoff_def h_def manhattan_distance_def orth_grid_def
  time_check_def walkable_nbrs_def retain_def release_def set_at_def cost_def fresh_def
  plain_finder_def

section \<open>The time check\<close>

lemma ticks_retain [simp]: "ticks (retain fd nb st) = ticks st"
  by (simp add: retain_def)

lemma ticks_release [simp]: "ticks (release fd nb st) = ticks st"
  by (simp add: release_def split: option.split)

lemma time_check_not_expired:
  "\<not> expired_at fd clock (ticks st) \<Longrightarrow>
   time_check fd clock (clock 0) st =
     (False, if num_pos (timeLimit fd) then st\<lparr>ticks := Suc (ticks st)\<rparr> else st)"
  by (simp add: time_check_def expired_at_def)

lemma search_when_expired:
  "expired_at fd clock (ticks st) \<Longrightarrow>
   search fd gr clock (clock 0) goal nd g cutoff depth st =
     Some (Number Infinity, st\<lparr>visitedNode := Suc (visitedNode st), ticks := Suc (ticks st)\<rparr>)"
  by (rule search_expired) (simp add: time_check_def expired_at_def)

text \<open>
  When every reading of the clock from number \<open>k\<close> on is past the limit, every call
  returns: a call consumes a reading, and a call that starts at reading \<open>k\<close> or later
  returns at once.
\<close>

lemma loop_returns_ticks:
  assumes rec: "\<And>nb s. m \<le> ticks s \<Longrightarrow>
      \<exists>t s1. rec nb s = Some (t, s1) \<and> ticks s < ticks s1 \<and> ((\<exists>e. t = Found e) \<longrightarrow> ticks s1 \<le> k)"
  shows "m \<le> ticks st \<Longrightarrow>
      \<exists>t s1. neighbors_loop rec fd nd depth ns minv st = Some (t, s1) \<and> ticks st \<le> ticks s1
         \<and> ((\<exists>e. t = Found e) \<longrightarrow> ticks s1 \<le> k)"
proof (induction ns arbitrary: minv st)
  case Nil
  then show ?case by simp
next
  case (Cons nb rest)
  from rec [of "retain fd nb st" nb] Cons.prems
  obtain t s1 where r: "rec nb (retain fd nb st) = Some (t, s1)" "ticks st < ticks s1"
    "(\<exists>e. t = Found e) \<longrightarrow> ticks s1 \<le> k"
    by auto
  show ?case
  proof (cases t)
    case (Found e)
    with r show ?thesis by simp
  next
    case (Number tn)
    have "m \<le> ticks (release fd nb s1)" using r Cons.prems by simp
    from Cons.IH [OF this, of "if num_less tn minv then tn else minv"]
    obtain t' s2 where "neighbors_loop rec fd nd depth rest (if num_less tn minv then tn else minv)
        (release fd nb s1) = Some (t', s2)" "ticks (release fd nb s1) \<le> ticks s2"
      "(\<exists>e. t' = Found e) \<longrightarrow> ticks s2 \<le> k"
      by blast
    with r Number show ?thesis by simp
  qed
qed

lemma search_returns_ticks:
  assumes late: "\<forall>n\<ge>k. expired_at fd clock n"
  shows "k - ticks st \<le> n \<Longrightarrow>
     \<exists>t s1. search fd gr clock (clock 0) goal nd g cutoff depth st = Some (t, s1)
        \<and> ticks st < ticks s1 \<and> ((\<exists>e. t = Found e) \<longrightarrow> ticks s1 \<le> k)"
proof (induction n arbitrary: st nd g depth)
  case 0
  then have "expired_at fd clock (ticks st)" using late by simp
  then show ?case by (simp add: search_when_expired)
next
  case (Suc n)
  have pos: "num_pos (timeLimit fd)"
    using late by (auto simp: expired_at_def)
  let ?st' = "st\<lparr>visitedNode := Suc (visitedNode st)\<rparr>"
  let ?st0 = "st\<lparr>visitedNode := Suc (visitedNode st), ticks := Suc (ticks st)\<rparr>"
  show ?case
  proof (cases "expired_at fd clock (ticks st)")
    case True
    then show ?thesis by (simp add: search_when_expired)
  next
    case False
    then have lt: "ticks st < k" using late by (meson not_le_imp_less)
    have tc: "time_check fd clock (clock 0) ?st' = (False, ?st0)"
      using False pos by (simp add: time_check_def expired_at_def)
    have rec: "\<And>nb s. Suc (ticks st) \<le> ticks s \<Longrightarrow>
        \<exists>t s1. search fd gr clock (clock 0) goal nb (g + cost nd nb) cutoff (depth + 1) s = Some (t, s1)
           \<and> ticks s < ticks s1 \<and> ((\<exists>e. t = Found e) \<longrightarrow> ticks s1 \<le> k)"
    proof -
      fix nb and s :: state assume "Suc (ticks st) \<le> ticks s"
      then have "k - ticks s \<le> n" using Suc.prems by simp
      then show "\<exists>t s1. search fd gr clock (clock 0) goal nb (g + cost nd nb) cutoff (depth + 1) s = Some (t, s1)
           \<and> ticks s < ticks s1 \<and> ((\<exists>e. t = Found e) \<longrightarrow> ticks s1 \<le> k)"
        by (rule Suc.IH)
    qed
    have loop: "\<exists>t s1. neighbors_loop
          (\<lambda>neighbor s. search fd gr clock (clock 0) goal neighbor (g + cost nd neighbor) cutoff (depth + 1) s)
          fd nd depth (getNeighbors gr nd (diagonalMovement fd)) Infinity ?st0 = Some (t, s1)
        \<and> ticks ?st0 \<le> ticks s1 \<and> ((\<exists>e. t = Found e) \<longrightarrow> ticks s1 \<le> k)"
      by (rule loop_returns_ticks [where m = "Suc (ticks st)"]) (use rec in simp_all)
    consider (pruned) "cutoff < g + h fd nd goal * weight fd"
      | (goal) "\<not> cutoff < g + h fd nd goal * weight fd" "nd = goal"
      | (expand) "\<not> cutoff < g + h fd nd goal * weight fd" "nd \<noteq> goal"
      by blast
    then show ?thesis
    proof cases
      case pruned
      show ?thesis by (simp add: search_pruned [OF tc pruned])
    next
      case goal
      show ?thesis using lt goal search_goal [OF tc, of cutoff g goal gr depth] by simp
    next
      case expand
      show ?thesis using loop by (auto simp add: search_expand [OF tc expand])
    qed
  qed
qed

lemma sweeps_returns_ticks:
  assumes late: "\<forall>n\<ge>k. expired_at fd clock n"
  shows "k - ticks st \<le> n \<Longrightarrow>
     \<exists>p s1. sweeps fd gr clock (clock 0) goal start cutoff st = Some (p, s1)
        \<and> (k < ticks s1 \<longrightarrow> p = [])"
proof (induction n arbitrary: st cutoff)
  case 0
  then have "expired_at fd clock (ticks st)" using late by simp
  then show ?case
    by (subst sweeps.simps, subst search_when_expired) simp_all
next
  case (Suc n)
  obtain t s1 where s: "search fd gr clock (clock 0) goal start 0 cutoff 0 (st\<lparr>route := []\<rparr>) = Some (t, s1)"
     "ticks st < ticks s1" "(\<exists>e. t = Found e) \<longrightarrow> ticks s1 \<le> k"
    using search_returns_ticks [OF late, of "st\<lparr>route := []\<rparr>" "k - ticks st" gr goal start 0 cutoff 0]
    by auto
  show ?case
  proof (cases t)
    case (Found e)
    with s show ?thesis by (subst sweeps.simps) simp
  next
    case (Number tn)
    show ?thesis
    proof (cases tn)
      case Infinity
      with s Number show ?thesis by (subst sweeps.simps) simp
    next
      case (Fin c)
      have "k - ticks s1 \<le> n" using s Suc.prems by simp
      from Suc.IH [OF this, of c] s Number Fin show ?thesis
        by (subst sweeps.simps) simp
    qed
  qed
qed

section \<open>The bound that a sweep returns\<close>



lemma loop_above_cutoff:
  assumes rec: "\<And>nb s v s'. rec nb s = Some (Number (Fin v), s') \<Longrightarrow> c < v"
  shows "neighbors_loop rec fd nd depth ns minv st = Some (Number (Fin v), st') \<Longrightarrow>
         (\<And>m. minv = Fin m \<Longrightarrow> c < m) \<Longrightarrow> c < v"
proof (induction ns arbitrary: minv st)
  case Nil
  then show ?case by simp
next
  case (Cons nb rest)
  from Cons.prems(1) obtain t s1 where r: "rec nb (retain fd nb st) = Some (t, s1)"
    by (auto split: Option.bind_splits)
  show ?case
  proof (cases t)
    case (Found e)
    with Cons.prems(1) r show ?thesis by simp
  next
    case (Number tn)
    with Cons.prems(1) r have l: "neighbors_loop rec fd nd depth rest
        (if num_less tn minv then tn else minv) (release fd nb s1) = Some (Number (Fin v), st')"
      by simp
    show ?thesis
    proof (rule Cons.IH [OF l])
      fix m assume m: "(if num_less tn minv then tn else minv) = Fin m"
      show "c < m"
      proof (cases "num_less tn minv")
        case True
        with m r Number show ?thesis using rec by auto
      next
        case False
        with m show ?thesis using Cons.prems(2) by simp
      qed
    qed
  qed
qed

lemma search_above_cutoff_aux:
  assumes a: "search fd gr clock startTime goal nd g cutoff depth st = Some r"
  shows "\<forall>v. fst r = Number (Fin v) \<longrightarrow> cutoff < v"
proof (rule search.raw_induct
    [where P = "\<lambda>fd gr clock startTime goal nd g cutoff depth st r.
                  \<forall>v. fst r = Number (Fin v) \<longrightarrow> cutoff < v", OF _ a], goal_cases)
  case (1 rec fd gr clock startTime goal nd g cutoff depth st r)
  obtain ex st0 where tc:
    "time_check fd clock startTime (st\<lparr>visitedNode := Suc (visitedNode st)\<rparr>) = (ex, st0)"
    by (cases "time_check fd clock startTime (st\<lparr>visitedNode := Suc (visitedNode st)\<rparr>)")
  show ?case
  proof (intro allI impI)
    fix v assume v: "fst r = Number (Fin v)"
    have recp: "\<And>nb s v s'. rec fd gr clock startTime goal nb (g + cost nd nb) cutoff (depth + 1) s
         = Some (Number (Fin v), s') \<Longrightarrow> cutoff < v"
      using 1(1) by fastforce
    from 1(2) tc v show "cutoff < v"
      by (cases r) (auto simp: Let_def split: if_splits dest!: loop_above_cutoff [rotated] intro: recp)
  qed
qed

lemma search_above_cutoff:
  "search fd gr clock startTime goal nd g cutoff depth st = Some (Number (Fin v), st') \<Longrightarrow> cutoff < v"
  by (drule search_above_cutoff_aux) simp


lemma sweep_at_Suc_end:
  "sweep_at fd gr clock startTime goal start (Suc j) c st =
     sweep_at fd gr clock startTime goal start j c st \<bind>
       (\<lambda>(a, sa). search fd gr clock startTime goal start 0 a 0 (sa\<lparr>route := []\<rparr>) \<bind>
          (\<lambda>(t, s1). case t of Number (Fin b) \<Rightarrow> Some (b, s1) | _ \<Rightarrow> None))"
proof (induction j arbitrary: c st)
  case 0
  show ?case
    by (auto split: Option.bind_split sres.split num.split)
next
  case (Suc j)
  show ?case
    apply (subst sweep_at.simps(2))
    apply (subst (2) sweep_at.simps(2))
    apply (simp only: Suc.IH)
    apply (cases "search fd gr clock startTime goal start 0 c 0 (st\<lparr>route := []\<rparr>)")
     apply simp
    subgoal for r
      apply (cases r)
      subgoal for t s1
        apply (cases t)
        subgoal for tn by (cases tn) simp_all
        subgoal by simp
        done
      done
    done
qed

lemma sweep_at_step:
  assumes "sweep_at fd gr clock startTime goal start j c st = Some (a, sa)"
    and "sweep_at fd gr clock startTime goal start (Suc j) c st = Some (b, sb)"
  shows "a < b"
proof -
  from assms(2) have "sweep_at fd gr clock startTime goal start j c st \<bind>
       (\<lambda>(a, sa). search fd gr clock startTime goal start 0 a 0 (sa\<lparr>route := []\<rparr>) \<bind>
          (\<lambda>(t, s1). case t of Number (Fin b) \<Rightarrow> Some (b, s1) | _ \<Rightarrow> None)) = Some (b, sb)"
    by (simp only: sweep_at_Suc_end)
  with assms(1) obtain t where "search fd gr clock startTime goal start 0 a 0 (sa\<lparr>route := []\<rparr>)
      = Some (Number (Fin b), t)"
    by (auto split: Option.bind_splits sres.splits num.splits)
  then show ?thesis by (rule search_above_cutoff)
qed

lemma sweep_at_defined_before:
  "sweep_at fd gr clock startTime goal start (Suc j) c st = Some r \<Longrightarrow>
   \<exists>r'. sweep_at fd gr clock startTime goal start j c st = Some r'"
  by (cases "sweep_at fd gr clock startTime goal start j c st") (simp_all only: sweep_at_Suc_end, simp_all)

lemma sweeps_sweep_at:
  "sweep_at fd gr clock startTime goal start j c st = Some (a, sa) \<Longrightarrow>
   sweeps fd gr clock startTime goal start c st = sweeps fd gr clock startTime goal start a sa"
proof (induction j arbitrary: c st)
  case 0
  then show ?case by simp
next
  case (Suc j)
  from Suc.prems obtain v s1 where
    s: "search fd gr clock startTime goal start 0 c 0 (st\<lparr>route := []\<rparr>) = Some (Number (Fin v), s1)"
    and r: "sweep_at fd gr clock startTime goal start j v s1 = Some (a, sa)"
    by (auto split: Option.bind_splits sres.splits num.splits)
  show ?case
    using Suc.IH [OF r] by (simp add: sweeps_again [OF s])
qed


section \<open>A region that is closed and does not hold the goal\<close>



lemma loop_finite:
  assumes rec: "\<And>nb s t s'. nb \<in> set ns \<Longrightarrow> rec nb s = Some (t, s') \<Longrightarrow> \<exists>v. t = Number (Fin v)"
  shows "neighbors_loop rec fd nd depth ns minv st = Some (t, st') \<Longrightarrow>
         ns \<noteq> [] \<or> (\<exists>m. minv = Fin m) \<Longrightarrow> \<exists>v. t = Number (Fin v)"
  using rec
proof (induction ns arbitrary: minv st)
  case Nil
  then show ?case by auto
next
  case (Cons nb rest)
  from Cons.prems(1) obtain t1 s1 where r: "rec nb (retain fd nb st) = Some (t1, s1)"
    by (auto split: Option.bind_splits)
  have "\<exists>v. t1 = Number (Fin v)"
    by (rule Cons.prems(3) [OF _ r]) simp
  then obtain v where v: "t1 = Number (Fin v)" ..
  let ?m = "if num_less (Fin v) minv then Fin v else minv"
  from Cons.prems(1) r v have l: "neighbors_loop rec fd nd depth rest ?m (release fd nb s1) = Some (t, st')"
    by simp
  have m: "rest \<noteq> [] \<or> (\<exists>m. ?m = Fin m)"
    by (cases minv) auto
  show ?case
  proof (rule Cons.IH [OF l m])
    fix nb' s t s'
    assume "nb' \<in> set rest" and "rec nb' s = Some (t, s')"
    then show "\<exists>v. t = Number (Fin v)"
      using Cons.prems(3) [of nb' s t s'] by simp
  qed
qed

lemma search_finite_in_closed_region:
  assumes a: "search fd gr clock startTime goal nd g cutoff depth st = Some r"
  shows "(\<forall>s. \<not> fst (time_check fd clock startTime s)) \<and> goal \<notin> A \<and> nd \<in> A
         \<and> (\<forall>n\<in>A. getNeighbors gr n (diagonalMovement fd) \<noteq> []
                  \<and> set (getNeighbors gr n (diagonalMovement fd)) \<subseteq> A)
         \<longrightarrow> (\<exists>v. fst r = Number (Fin v))"
proof (rule search.raw_induct
    [where P = "\<lambda>fd gr clock startTime goal nd g cutoff depth st r.
        (\<forall>s. \<not> fst (time_check fd clock startTime s)) \<and> goal \<notin> A \<and> nd \<in> A
         \<and> (\<forall>n\<in>A. getNeighbors gr n (diagonalMovement fd) \<noteq> []
                  \<and> set (getNeighbors gr n (diagonalMovement fd)) \<subseteq> A)
         \<longrightarrow> (\<exists>v. fst r = Number (Fin v))", OF _ a],
    goal_cases)
  case (1 rec fd gr clock startTime goal nd g cutoff depth st r)
  show ?case
  proof (intro impI, elim conjE)
    assume tc: "\<forall>s. \<not> fst (time_check fd clock startTime s)" and goal: "goal \<notin> A" and nd: "nd \<in> A"
      and cl: "\<forall>n\<in>A. getNeighbors gr n (diagonalMovement fd) \<noteq> []
                  \<and> set (getNeighbors gr n (diagonalMovement fd)) \<subseteq> A"
    obtain st0 where t0: "time_check fd clock startTime (st\<lparr>visitedNode := Suc (visitedNode st)\<rparr>) = (False, st0)"
      using tc by (metis (full_types) prod.collapse)
    have ne: "nd \<noteq> goal" using goal nd by auto
    show "\<exists>v. fst r = Number (Fin v)"
    proof (cases "cutoff < g + h fd nd goal * weight fd")
      case True
      with 1(2) t0 show ?thesis by auto
    next
      case False
      with 1(2) t0 ne have l: "neighbors_loop
          (\<lambda>neighbor s. rec fd gr clock startTime goal neighbor (g + cost nd neighbor) cutoff (depth + 1) s)
          fd nd depth (getNeighbors gr nd (diagonalMovement fd)) Infinity st0 = Some (fst r, snd r)"
        by simp
      show ?thesis
      proof (rule loop_finite [OF _ l])
        show "getNeighbors gr nd (diagonalMovement fd) \<noteq> [] \<or> (\<exists>m. Infinity = Fin m)"
          using cl nd by auto
      next
        fix nb s t s'
        assume "nb \<in> set (getNeighbors gr nd (diagonalMovement fd))"
          and "rec fd gr clock startTime goal nb (g + cost nd nb) cutoff (depth + 1) s = Some (t, s')"
        then show "\<exists>v. t = Number (Fin v)"
          using 1(1) [of fd gr clock startTime goal nb "g + cost nd nb" cutoff "depth + 1" s "(t, s')"]
            tc goal cl nd by auto
      qed
    qed
  qed
qed

lemma sweeps_never_return_in_closed_region:
  assumes a: "sweeps fd gr clock startTime goal start cutoff st = Some r"
  shows "\<not> ((\<forall>s. \<not> fst (time_check fd clock startTime s)) \<and> goal \<notin> A \<and> start \<in> A
         \<and> (\<forall>n\<in>A. getNeighbors gr n (diagonalMovement fd) \<noteq> []
                  \<and> set (getNeighbors gr n (diagonalMovement fd)) \<subseteq> A))"
proof (rule sweeps.raw_induct
    [where P = "\<lambda>fd gr clock startTime goal start cutoff st r.
        \<not> ((\<forall>s. \<not> fst (time_check fd clock startTime s)) \<and> goal \<notin> A \<and> start \<in> A
         \<and> (\<forall>n\<in>A. getNeighbors gr n (diagonalMovement fd) \<noteq> []
                  \<and> set (getNeighbors gr n (diagonalMovement fd)) \<subseteq> A))", OF _ a], goal_cases)
  case (1 rec fd gr clock startTime goal start cutoff st r)
  show ?case
  proof
    assume c: "(\<forall>s. \<not> fst (time_check fd clock startTime s)) \<and> goal \<notin> A \<and> start \<in> A
         \<and> (\<forall>n\<in>A. getNeighbors gr n (diagonalMovement fd) \<noteq> []
                  \<and> set (getNeighbors gr n (diagonalMovement fd)) \<subseteq> A)"
    from 1(2) obtain t s1 where
      s: "search fd gr clock startTime goal start 0 cutoff 0 (st\<lparr>route := []\<rparr>) = Some (t, s1)"
      by (auto split: Option.bind_splits)
    from search_finite_in_closed_region [OF s, of A] c obtain v where v: "t = Number (Fin v)" by auto
    from 1(2) s v have "rec fd gr clock startTime goal start v s1 = Some r" by simp
    from 1(1) [OF this] c show False by simp
  qed
qed


section \<open>Runs with and without recursion tracking\<close>



lemma same_run_retain: "same_run s s' \<Longrightarrow> same_run (retain fd nb s) (retain fd' nb' s')"
  by (simp add: same_run_def retain_def)

lemma same_run_release: "same_run s s' \<Longrightarrow> same_run (release fd nb s) (release fd' nb' s')"
  by (simp add: same_run_def release_def split: option.split)

lemma same_run_route: "same_run s s' \<Longrightarrow>
    same_run (s\<lparr>route := set_at (route s) d v\<rparr>) (s'\<lparr>route := set_at (route s') d v\<rparr>)"
  by (simp add: same_run_def)

lemma same_run_time_check:
  "same_run s s' \<Longrightarrow>
   fst (time_check (fd\<lparr>trackRecursion := b\<rparr>) clock startTime (s'\<lparr>visitedNode := Suc (visitedNode s')\<rparr>))
     = fst (time_check fd clock startTime (s\<lparr>visitedNode := Suc (visitedNode s)\<rparr>))
   \<and> same_run (snd (time_check fd clock startTime (s\<lparr>visitedNode := Suc (visitedNode s)\<rparr>)))
       (snd (time_check (fd\<lparr>trackRecursion := b\<rparr>) clock startTime (s'\<lparr>visitedNode := Suc (visitedNode s')\<rparr>)))"
  by (simp add: same_run_def time_check_def)

lemma loop_sim:
  assumes rec: "\<And>nb s t s1 s'. rec1 nb s = Some (t, s1) \<Longrightarrow> same_run s s' \<Longrightarrow>
      \<exists>s1'. rec2 nb s' = Some (t, s1') \<and> same_run s1 s1'"
  shows "neighbors_loop rec1 fd1 nd depth ns minv st = Some (t, st1) \<Longrightarrow> same_run st st' \<Longrightarrow>
      \<exists>st1'. neighbors_loop rec2 fd2 nd depth ns minv st' = Some (t, st1') \<and> same_run st1 st1'"
proof (induction ns arbitrary: minv st st')
  case Nil
  then show ?case by auto
next
  case (Cons nb rest)
  from Cons.prems(1) obtain t1 s1 where r: "rec1 nb (retain fd1 nb st) = Some (t1, s1)"
    by (auto split: Option.bind_splits)
  from rec [OF r same_run_retain [OF Cons.prems(2)], of fd2 nb]
  obtain s1' where r': "rec2 nb (retain fd2 nb st') = Some (t1, s1')" and s: "same_run s1 s1'"
    by auto
  show ?case
  proof (cases t1)
    case (Found e)
    with Cons.prems(1) r r' s show ?thesis
      by (auto simp: same_run_route)
  next
    case (Number tn)
    with Cons.prems(1) r have l: "neighbors_loop rec1 fd1 nd depth rest
        (if num_less tn minv then tn else minv) (release fd1 nb s1) = Some (t, st1)"
      by simp
    from Cons.IH [OF l same_run_release [OF s], of fd2 nb] r' Number
    show ?thesis by simp
  qed
qed

lemma search_track_sim:
  assumes a: "search fd gr clock startTime goal nd g cutoff depth st = Some r"
  shows "\<forall>b st'. same_run st st' \<longrightarrow>
     (\<exists>st1'. search (fd\<lparr>trackRecursion := b\<rparr>) gr clock startTime goal nd g cutoff depth st'
                = Some (fst r, st1') \<and> same_run (snd r) st1')"
proof (rule search.raw_induct
    [where P = "\<lambda>fd gr clock startTime goal nd g cutoff depth st r.
       \<forall>b st'. same_run st st' \<longrightarrow>
     (\<exists>st1'. search (fd\<lparr>trackRecursion := b\<rparr>) gr clock startTime goal nd g cutoff depth st'
                = Some (fst r, st1') \<and> same_run (snd r) st1')", OF _ a], goal_cases)
  case (1 rec fd gr clock startTime goal nd g cutoff depth st r)
  show ?case
  proof (intro allI impI)
    fix b st' assume sr: "same_run st st'"
    let ?fd' = "fd\<lparr>trackRecursion := b\<rparr>"
    obtain ex st0 where tc: "time_check fd clock startTime (st\<lparr>visitedNode := Suc (visitedNode st)\<rparr>) = (ex, st0)"
      by (cases "time_check fd clock startTime (st\<lparr>visitedNode := Suc (visitedNode st)\<rparr>)")
    obtain ex' st0' where tc': "time_check ?fd' clock startTime (st'\<lparr>visitedNode := Suc (visitedNode st')\<rparr>) = (ex', st0')"
      by (cases "time_check ?fd' clock startTime (st'\<lparr>visitedNode := Suc (visitedNode st')\<rparr>)")
    from same_run_time_check [OF sr, where fd = fd and b = b and clock = clock and startTime = startTime] tc tc'
    have ex: "ex' = ex" and s0: "same_run st0 st0'" by simp_all
    have hh: "h ?fd' nd goal = h fd nd goal" by (simp add: h_def)
    consider (expired) ex
      | (pruned) "\<not> ex" "cutoff < g + h fd nd goal * weight fd"
      | (goal) "\<not> ex" "\<not> cutoff < g + h fd nd goal * weight fd" "nd = goal"
      | (expand) "\<not> ex" "\<not> cutoff < g + h fd nd goal * weight fd" "nd \<noteq> goal"
      by blast
    then show "\<exists>st1'. search ?fd' gr clock startTime goal nd g cutoff depth st'
                = Some (fst r, st1') \<and> same_run (snd r) st1'"
    proof cases
      case expired
      with 1(2) tc tc' ex s0 show ?thesis
        by (subst search.simps) auto
    next
      case pruned
      with 1(2) tc tc' ex s0 hh show ?thesis
        by (subst search.simps) auto
    next
      case goal
      with 1(2) tc tc' ex s0 hh show ?thesis
        by (subst search.simps) (auto simp: same_run_route)
    next
      case expand
      with 1(2) tc have l: "neighbors_loop
          (\<lambda>neighbor s. rec fd gr clock startTime goal neighbor (g + cost nd neighbor) cutoff (depth + 1) s)
          fd nd depth (getNeighbors gr nd (diagonalMovement fd)) Infinity st0 = Some (fst r, snd r)"
        by simp
      have "\<exists>st1'. neighbors_loop
          (\<lambda>neighbor s. search ?fd' gr clock startTime goal neighbor (g + cost nd neighbor) cutoff (depth + 1) s)
          ?fd' nd depth (getNeighbors gr nd (diagonalMovement fd)) Infinity st0' = Some (fst r, st1')
          \<and> same_run (snd r) st1'"
      proof (rule loop_sim [OF _ l s0])
        fix nb s t s1 s'
        assume "rec fd gr clock startTime goal nb (g + cost nd nb) cutoff (depth + 1) s = Some (t, s1)"
          and "same_run s s'"
        then show "\<exists>s1'. search ?fd' gr clock startTime goal nb (g + cost nd nb) cutoff (depth + 1) s'
            = Some (t, s1') \<and> same_run s1 s1'"
          using 1(1) by fastforce
      qed
      with expand tc' ex hh show ?thesis
        by (subst search.simps) simp
    qed
  qed
qed

lemma sweeps_track_sim:
  assumes a: "sweeps fd gr clock startTime goal start cutoff st = Some r"
  shows "\<forall>b st'. same_run st st' \<longrightarrow>
     (\<exists>st1'. sweeps (fd\<lparr>trackRecursion := b\<rparr>) gr clock startTime goal start cutoff st'
                = Some (fst r, st1') \<and> same_run (snd r) st1')"
proof (rule sweeps.raw_induct
    [where P = "\<lambda>fd gr clock startTime goal start cutoff st r.
       \<forall>b st'. same_run st st' \<longrightarrow>
     (\<exists>st1'. sweeps (fd\<lparr>trackRecursion := b\<rparr>) gr clock startTime goal start cutoff st'
                = Some (fst r, st1') \<and> same_run (snd r) st1')", OF _ a], goal_cases)
  case (1 rec fd gr clock startTime goal start cutoff st r)
  show ?case
  proof (intro allI impI)
    fix b st' assume sr: "same_run st st'"
    let ?fd' = "fd\<lparr>trackRecursion := b\<rparr>"
    from 1(2) obtain t s1 where
      s: "search fd gr clock startTime goal start 0 cutoff 0 (st\<lparr>route := []\<rparr>) = Some (t, s1)"
      by (auto split: Option.bind_splits)
    have "same_run (st\<lparr>route := []\<rparr>) (st'\<lparr>route := []\<rparr>)"
      using sr by (simp add: same_run_def)
    with search_track_sim [OF s] obtain s1' where
      s': "search ?fd' gr clock startTime goal start 0 cutoff 0 (st'\<lparr>route := []\<rparr>) = Some (t, s1')"
      and s1: "same_run s1 s1'"
      by fastforce
    show "\<exists>st1'. sweeps ?fd' gr clock startTime goal start cutoff st' = Some (fst r, st1')
        \<and> same_run (snd r) st1'"
    proof (cases t)
      case (Found e)
      with 1(2) s s' s1 show ?thesis
        by (subst sweeps.simps) (auto simp: same_run_def)
    next
      case (Number tn)
      show ?thesis
      proof (cases tn)
        case Infinity
        with Number 1(2) s s' s1 show ?thesis
          by (subst sweeps.simps) (auto simp: same_run_def)
      next
        case (Fin c)
        with Number 1(2) s have "rec fd gr clock startTime goal start c s1 = Some r" by simp
        from 1(1) [OF this] s1 Number Fin s' show ?thesis
          by (subst sweeps.simps) simp
      qed
    qed
  qed
qed

lemma findPath_track_sim:
  assumes "findPath fd clock nodes0 sx sy ex ey gr = Some (p, s)"
  shows "\<exists>s'. findPath (fd\<lparr>trackRecursion := b\<rparr>) clock nodes0' sx sy ex ey gr = Some (p, s')"
proof -
  have "same_run \<lparr>route = [], nodes = nodes0, visitedNode = 0, ticks = 1\<rparr>
                 \<lparr>route = [], nodes = nodes0', visitedNode = 0, ticks = 1\<rparr>"
    by (simp add: same_run_def)
  with sweeps_track_sim [OF assms [unfolded findPath_def]]
  show ?thesis
    by (fastforce simp: findPath_def initial_cutoff_def h_def)
qed


section \<open>A sweep over a finite grid returns\<close>


lemma cost_ge_1: "1 \<le> cost a b"
proof -
  have "1 \<le> sqrt 2" by simp
  then show ?thesis by (simp add: cost_def)
qed

lemma time_check_never:
  assumes "\<forall>n. \<not> expired_at fd clock n"
  shows "\<exists>s0. time_check fd clock (clock 0) s = (False, s0) \<and> route s0 = route s \<and> nodes s0 = nodes s"
  using assms by (auto simp: time_check_def expired_at_def)

lemma loop_returns:
  assumes "\<And>nb s. nb \<in> set ns \<Longrightarrow> \<exists>r. rec nb s = Some r"
  shows "\<exists>r. neighbors_loop rec fd nd depth ns minv st = Some r"
  using assms
proof (induction ns arbitrary: minv st)
  case Nil
  show ?case by simp
next
  case (Cons nb rest)
  from Cons.prems [of nb "retain fd nb st"] obtain t s1 where r: "rec nb (retain fd nb st) = Some (t, s1)"
    by auto
  show ?case
  proof (cases t)
    case (Found e)
    with r show ?thesis by simp
  next
    case (Number tn)
    have "\<exists>r. neighbors_loop rec fd nd depth rest (if num_less tn minv then tn else minv)
        (release fd nb s1) = Some r"
      by (rule Cons.IH) (use Cons.prems in simp)
    with r Number show ?thesis by simp
  qed
qed

lemma search_returns:
  assumes fin: "finite V"
    and closed: "\<forall>n\<in>V. set (getNeighbors gr n (diagonalMovement fd)) \<subseteq> V"
    and notime: "\<forall>n. \<not> expired_at fd clock n"
  shows "nd \<in> V \<Longrightarrow> \<exists>r. search fd gr clock (clock 0) goal nd g cutoff depth st = Some r"
proof -
  obtain M where M: "\<And>n. n \<in> V \<Longrightarrow> - M \<le> h fd n goal * weight fd"
  proof -
    have "finite ((\<lambda>n. - (h fd n goal * weight fd)) ` V)" using fin by simp
    then obtain M where "\<forall>v\<in>(\<lambda>n. - (h fd n goal * weight fd)) ` V. v \<le> M"
      by (meson bdd_above_def bdd_above_finite)
    then have "\<And>n. n \<in> V \<Longrightarrow> - M \<le> h fd n goal * weight fd" by force
    then show ?thesis by (rule that)
  qed
  have "\<forall>nd\<in>V. \<forall>g depth st. cutoff + M - g < real k \<longrightarrow>
          (\<exists>r. search fd gr clock (clock 0) goal nd g cutoff depth st = Some r)" for k
  proof (induction k)
    case 0
    show ?case
    proof (intro ballI allI impI)
      fix nd g depth and st :: state
      assume nd: "nd \<in> V" and lt: "cutoff + M - g < real 0"
      obtain s0 where tc: "time_check fd clock (clock 0) (st\<lparr>visitedNode := Suc (visitedNode st)\<rparr>) = (False, s0)"
        using time_check_never [OF notime] by blast
      have "cutoff < g + h fd nd goal * weight fd"
        using M [OF nd] lt by simp
      then show "\<exists>r. search fd gr clock (clock 0) goal nd g cutoff depth st = Some r"
        by (simp add: search_pruned [OF tc])
    qed
  next
    case (Suc k)
    show ?case
    proof (intro ballI allI impI)
      fix nd g depth and st :: state
      assume nd: "nd \<in> V" and lt: "cutoff + M - g < real (Suc k)"
      obtain s0 where tc: "time_check fd clock (clock 0) (st\<lparr>visitedNode := Suc (visitedNode st)\<rparr>) = (False, s0)"
        using time_check_never [OF notime] by blast
      consider (pruned) "cutoff < g + h fd nd goal * weight fd"
        | (goal) "\<not> cutoff < g + h fd nd goal * weight fd" "nd = goal"
        | (expand) "\<not> cutoff < g + h fd nd goal * weight fd" "nd \<noteq> goal"
        by blast
      then show "\<exists>r. search fd gr clock (clock 0) goal nd g cutoff depth st = Some r"
      proof cases
        case pruned
        then show ?thesis by (simp add: search_pruned [OF tc])
      next
        case goal
        then show ?thesis using search_goal [OF tc, of cutoff g goal gr depth] by simp
      next
        case expand
        have "\<exists>r. neighbors_loop
          (\<lambda>neighbor s. search fd gr clock (clock 0) goal neighbor (g + cost nd neighbor) cutoff (depth + 1) s)
          fd nd depth (getNeighbors gr nd (diagonalMovement fd)) Infinity s0 = Some r"
        proof (rule loop_returns)
          fix nb and s :: state
          assume "nb \<in> set (getNeighbors gr nd (diagonalMovement fd))"
          then have nb: "nb \<in> V" using closed nd by auto
          have "cutoff + M - (g + cost nd nb) < real k"
            using lt cost_ge_1 [of nd nb] by simp
          then show "\<exists>r. search fd gr clock (clock 0) goal nb (g + cost nd nb) cutoff (depth + 1) s = Some r"
            using Suc.IH nb by blast
        qed
        then show ?thesis by (simp add: search_expand [OF tc expand])
      qed
    qed
  qed
  moreover obtain k where "cutoff + M - g < real k"
    using reals_Archimedean2 by blast
  ultimately show "nd \<in> V \<Longrightarrow> \<exists>r. search fd gr clock (clock 0) goal nd g cutoff depth st = Some r"
    by blast
qed

section \<open>The bound of a sweep that does not find the goal\<close>


lemma loop_bound_le:
  assumes rec: "\<And>s tn s'. rec b s = Some (Number tn, s') \<Longrightarrow> \<exists>v. tn = Fin v \<and> v \<le> B"
  shows "neighbors_loop rec fd nd depth ns minv st = Some (Number tn, st') \<Longrightarrow>
         b \<in> set ns \<or> (\<exists>m. minv = Fin m \<and> m \<le> B) \<Longrightarrow> \<exists>v. tn = Fin v \<and> v \<le> B"
proof (induction ns arbitrary: minv st)
  case Nil
  then show ?case by auto
next
  case (Cons nb rest)
  from Cons.prems(1) obtain t1 s1 where r: "rec nb (retain fd nb st) = Some (t1, s1)"
    by (auto split: Option.bind_splits)
  show ?case
  proof (cases t1)
    case (Found e)
    with Cons.prems(1) r show ?thesis by simp
  next
    case (Number t)
    let ?m = "if num_less t minv then t else minv"
    from Cons.prems(1) r Number
    have l: "neighbors_loop rec fd nd depth rest ?m (release fd nb s1) = Some (Number tn, st')"
      by simp
    have "b \<in> set rest \<or> (\<exists>m. ?m = Fin m \<and> m \<le> B)"
    proof (cases "\<exists>m. minv = Fin m \<and> m \<le> B")
      case True
      then obtain m where m: "minv = Fin m" "m \<le> B" by auto
      then show ?thesis by (cases t) auto
    next
      case False
      with Cons.prems(2) have "b = nb \<or> b \<in> set rest" by auto
      then show ?thesis
      proof
        assume "b = nb"
        with r Number rec obtain v where v: "t = Fin v" "v \<le> B" by blast
        then show ?thesis by (cases minv) auto
      qed simp
    qed
    then show ?thesis by (rule Cons.IH [OF l])
  qed
qed

lemma search_bound_le_aux:
  assumes a: "search fd gr clock startTime goal nd g cutoff depth st = Some r"
  shows "(\<forall>s. \<not> fst (time_check fd clock startTime s)) \<longrightarrow>
         (\<forall>w tn. is_walk gr (diagonalMovement fd) w \<and> hd w = nd \<and> last w = goal \<and> fst r = Number tn
            \<longrightarrow> (\<exists>v. tn = Fin v \<and> v \<le> walk_fmax fd goal g w))"
proof (rule search.raw_induct
    [where P = "\<lambda>fd gr clock startTime goal nd g cutoff depth st r.
       (\<forall>s. \<not> fst (time_check fd clock startTime s)) \<longrightarrow>
         (\<forall>w tn. is_walk gr (diagonalMovement fd) w \<and> hd w = nd \<and> last w = goal \<and> fst r = Number tn
            \<longrightarrow> (\<exists>v. tn = Fin v \<and> v \<le> walk_fmax fd goal g w))", OF _ a], goal_cases)
  case (1 rec fd gr clock startTime goal nd g cutoff depth st r)
  show ?case
  proof (intro allI impI, elim conjE)
    fix w tn
    assume nt: "\<forall>s. \<not> fst (time_check fd clock startTime s)"
      and w: "is_walk gr (diagonalMovement fd) w" "hd w = nd" "last w = goal"
      and tn: "fst r = Number tn"
    obtain s0 where tc: "time_check fd clock startTime (st\<lparr>visitedNode := Suc (visitedNode st)\<rparr>) = (False, s0)"
      using nt by (metis (full_types) prod.collapse)
    from w obtain rest where wr: "w = nd # rest" by (cases w) auto
    have f0: "g + h fd nd goal * weight fd \<le> walk_fmax fd goal g w"
      unfolding wr by (cases rest) auto
    show "\<exists>v. tn = Fin v \<and> v \<le> walk_fmax fd goal g w"
    proof (cases "cutoff < g + h fd nd goal * weight fd")
      case True
      with 1(2) tc tn f0 show ?thesis by auto
    next
      case False
      show ?thesis
      proof (cases "nd = goal")
        case True
        with False 1(2) tc tn show ?thesis by auto
      next
        case ne: False
        with w wr obtain b rest' where r': "rest = b # rest'"
          by (cases rest) auto
        have bn: "b \<in> set (getNeighbors gr nd (diagonalMovement fd))"
          and wb: "is_walk gr (diagonalMovement fd) (b # rest')" "last (b # rest') = goal"
          using w wr r' by auto
        have fm: "walk_fmax fd goal (g + cost nd b) (b # rest') \<le> walk_fmax fd goal g w"
          unfolding wr r' by simp
        from False ne 1(2) tc tn have l: "neighbors_loop
          (\<lambda>neighbor s. rec fd gr clock startTime goal neighbor (g + cost nd neighbor) cutoff (depth + 1) s)
          fd nd depth (getNeighbors gr nd (diagonalMovement fd)) Infinity s0 = Some (Number tn, snd r)"
          by (cases r) simp
        have "\<exists>v. tn = Fin v \<and> v \<le> walk_fmax fd goal (g + cost nd b) (b # rest')"
        proof (rule loop_bound_le [OF _ l])
          show "b \<in> set (getNeighbors gr nd (diagonalMovement fd)) \<or>
              (\<exists>m. Infinity = Fin m \<and> m \<le> walk_fmax fd goal (g + cost nd b) (b # rest'))"
            using bn by simp
        next
          fix s tn' s'
          assume "rec fd gr clock startTime goal b (g + cost nd b) cutoff (depth + 1) s = Some (Number tn', s')"
          from 1(1) [OF this] nt wb
          show "\<exists>v. tn' = Fin v \<and> v \<le> walk_fmax fd goal (g + cost nd b) (b # rest')"
            by auto
        qed
        with fm show ?thesis by auto
      qed
    qed
  qed
qed

lemma search_bound_le:
  assumes "search fd gr clock (clock 0) goal nd g cutoff depth st = Some (Number tn, st')"
    and "\<forall>n. \<not> expired_at fd clock n"
    and "is_walk gr (diagonalMovement fd) w" "hd w = nd" "last w = goal"
  shows "\<exists>v. tn = Fin v \<and> v \<le> walk_fmax fd goal g w"
proof -
  have "\<forall>s. \<not> fst (time_check fd clock (clock 0) s)"
    using assms(2) by (simp add: time_check_def expired_at_def)
  with search_bound_le_aux [OF assms(1)] assms(3-5) show ?thesis by auto
qed

lemma bound_value_step:
  assumes "bound_value fd goal V (g + cost a b) v"
  shows "bound_value fd goal V g v"
proof -
  from assms obtain i j n where n: "n \<in> V"
    and v: "v = g + cost a b + real i + real j * sqrt 2 + h fd n goal * weight fd"
    by (auto simp: bound_value_def)
  show ?thesis
  proof (cases "x a = x b \<or> y a = y b")
    case True
    then have "v = g + real (Suc i) + real j * sqrt 2 + h fd n goal * weight fd"
      using v by (simp add: cost_def)
    with n show ?thesis unfolding bound_value_def by blast
  next
    case False
    then have "v = g + real i + real (Suc j) * sqrt 2 + h fd n goal * weight fd"
      using v by (simp add: cost_def algebra_simps)
    with n show ?thesis unfolding bound_value_def by blast
  qed
qed

lemma loop_bound_value:
  assumes rec: "\<And>nb s v s'. nb \<in> set ns \<Longrightarrow> rec nb s = Some (Number (Fin v), s') \<Longrightarrow> Q v"
  shows "neighbors_loop rec fd nd depth ns minv st = Some (Number (Fin v), st') \<Longrightarrow>
         (\<And>m. minv = Fin m \<Longrightarrow> Q m) \<Longrightarrow> Q v"
  using rec
proof (induction ns arbitrary: minv st)
  case Nil
  then show ?case by simp
next
  case (Cons nb rest)
  from Cons.prems(1) obtain t1 s1 where r: "rec nb (retain fd nb st) = Some (t1, s1)"
    by (auto split: Option.bind_splits)
  show ?case
  proof (cases t1)
    case (Found e)
    with Cons.prems(1) r show ?thesis by simp
  next
    case (Number t)
    let ?m = "if num_less t minv then t else minv"
    from Cons.prems(1) r Number
    have l: "neighbors_loop rec fd nd depth rest ?m (release fd nb s1) = Some (Number (Fin v), st')"
      by simp
    show ?thesis
    proof (rule Cons.IH [OF l])
      fix m assume m: "?m = Fin m"
      show "Q m"
      proof (cases "num_less t minv")
        case True
        with m r Number show ?thesis using Cons.prems(3) [of nb "retain fd nb st" m s1] by simp
      next
        case False
        with m show ?thesis using Cons.prems(2) by simp
      qed
    next
      fix nb' s v' s'
      assume "nb' \<in> set rest" "rec nb' s = Some (Number (Fin v'), s')"
      then show "Q v'" using Cons.prems(3) [of nb' s v' s'] by simp
    qed
  qed
qed

lemma search_bound_value_aux:
  assumes a: "search fd gr clock startTime goal nd g cutoff depth st = Some r"
  shows "nd \<in> V \<and> (\<forall>n\<in>V. set (getNeighbors gr n (diagonalMovement fd)) \<subseteq> V) \<longrightarrow>
         (\<forall>v. fst r = Number (Fin v) \<longrightarrow> bound_value fd goal V g v)"
proof (rule search.raw_induct
    [where P = "\<lambda>fd gr clock startTime goal nd g cutoff depth st r.
       nd \<in> V \<and> (\<forall>n\<in>V. set (getNeighbors gr n (diagonalMovement fd)) \<subseteq> V) \<longrightarrow>
         (\<forall>v. fst r = Number (Fin v) \<longrightarrow> bound_value fd goal V g v)", OF _ a], goal_cases)
  case (1 rec fd gr clock startTime goal nd g cutoff depth st r)
  show ?case
  proof (intro allI impI, elim conjE)
    fix v
    assume nd: "nd \<in> V" and cl: "\<forall>n\<in>V. set (getNeighbors gr n (diagonalMovement fd)) \<subseteq> V"
      and v: "fst r = Number (Fin v)"
    obtain ex s0 where tc: "time_check fd clock startTime (st\<lparr>visitedNode := Suc (visitedNode st)\<rparr>) = (ex, s0)"
      by (cases "time_check fd clock startTime (st\<lparr>visitedNode := Suc (visitedNode st)\<rparr>)")
    have own: "bound_value fd goal V g (g + h fd nd goal * weight fd)"
      unfolding bound_value_def using nd by (intro exI [of _ 0] exI [of _ nd]) simp
    consider (expired) ex
      | (pruned) "\<not> ex" "cutoff < g + h fd nd goal * weight fd"
      | (goal) "\<not> ex" "\<not> cutoff < g + h fd nd goal * weight fd" "nd = goal"
      | (expand) "\<not> ex" "\<not> cutoff < g + h fd nd goal * weight fd" "nd \<noteq> goal"
      by blast
    then show "bound_value fd goal V g v"
    proof cases
      case expired
      with 1(2) tc v show ?thesis by auto
    next
      case pruned
      with 1(2) tc v own show ?thesis by auto
    next
      case goal
      with 1(2) tc v show ?thesis by auto
    next
      case expand
      with 1(2) tc v have l: "neighbors_loop
          (\<lambda>neighbor s. rec fd gr clock startTime goal neighbor (g + cost nd neighbor) cutoff (depth + 1) s)
          fd nd depth (getNeighbors gr nd (diagonalMovement fd)) Infinity s0 = Some (Number (Fin v), snd r)"
        by (cases r) simp
      show ?thesis
      proof (rule loop_bound_value [OF _ l])
        fix nb s v' s'
        assume nb: "nb \<in> set (getNeighbors gr nd (diagonalMovement fd))"
          and "rec fd gr clock startTime goal nb (g + cost nd nb) cutoff (depth + 1) s = Some (Number (Fin v'), s')"
        from 1(1) [OF this(2)] nb nd cl have "bound_value fd goal V (g + cost nd nb) v'"
          by auto
        then show "bound_value fd goal V g v'" by (rule bound_value_step)
      qed simp
    qed
  qed
qed

lemma search_bound_value:
  assumes "search fd gr clock startTime goal nd g cutoff depth st = Some (Number (Fin v), st')"
    and "nd \<in> V" and "\<forall>n\<in>V. set (getNeighbors gr n (diagonalMovement fd)) \<subseteq> V"
  shows "bound_value fd goal V g v"
  using search_bound_value_aux [OF assms(1), of V] assms(2,3) by simp

section \<open>The route of a sweep that finds the goal\<close>


lemma route_retain [simp]: "route (retain fd nb st) = route st"
  by (simp add: retain_def)

lemma route_release [simp]: "route (release fd nb st) = route st"
  by (simp add: release_def split: option.split)

lemma route_time_check [simp]: "route (snd (time_check fd clock startTime st)) = route st"
  by (simp add: time_check_def)

lemma set_at_pad:
  assumes "length xs \<le> d"
  shows "set_at (xs @ replicate (Suc d - length xs) None @ ys) d v
         = xs @ replicate (d - length xs) None @ Some v # ys"
proof -
  have r: "replicate (Suc d - length xs) None = replicate (d - length xs) (None :: 'a option) @ [None]"
    using assms by (simp add: Suc_diff_le replicate_append_same)
  have l: "length (xs @ replicate (d - length xs) (None :: 'a option)) = d"
    using assms by simp
  have "(xs @ replicate (Suc d - length xs) None @ ys)[d := Some v]
      = ((xs @ replicate (d - length xs) None) @ None # ys)[d := Some v]"
    by (simp add: r)
  also have "\<dots> = (xs @ replicate (d - length xs) None) @ Some v # ys"
    using l by (metis list_update_length)
  finally show ?thesis
    using assms by (simp add: set_at_def)
qed

lemma set_at_end:
  assumes "length xs \<le> d"
  shows "set_at xs d v = xs @ replicate (d - length xs) None @ [Some v]"
  using assms by (auto simp: set_at_def)

lemma is_walk_Cons:
  "is_walk gr dm p \<Longrightarrow> hd p \<in> set (getNeighbors gr a dm) \<Longrightarrow> is_walk gr dm (a # p)"
  by (cases p) auto

lemma walk_cost_Cons: "p \<noteq> [] \<Longrightarrow> walk_cost (a # p) = cost a (hd p) + walk_cost p"
  by (cases p) auto

lemma is_walk_nonempty: "is_walk gr dm p \<Longrightarrow> p \<noteq> []"
  by (cases p) auto

lemma loop_found_ok:
  assumes rec: "\<And>nb s r. nb \<in> set (getNeighbors gr nd (diagonalMovement fd)) \<Longrightarrow> rec nb s = Some r \<Longrightarrow>
      found_ok fd gr goal cutoff nb (g + cost nd nb) (Suc depth) s r"
  shows "neighbors_loop rec fd nd depth ns minv st = Some r \<Longrightarrow>
         set ns \<subseteq> set (getNeighbors gr nd (diagonalMovement fd)) \<Longrightarrow>
         found_ok fd gr goal cutoff nd g depth st r"
proof (induction ns arbitrary: minv st)
  case Nil
  then show ?case by (auto simp: found_ok_def)
next
  case (Cons nb rest)
  from Cons.prems(1) obtain t1 s1 where r: "rec nb (retain fd nb st) = Some (t1, s1)"
    by (auto split: Option.bind_splits)
  have nb: "nb \<in> set (getNeighbors gr nd (diagonalMovement fd))"
    using Cons.prems(2) by simp
  from rec [OF nb r] have ok: "found_ok fd gr goal cutoff nb (g + cost nd nb) (Suc depth) (retain fd nb st) (t1, s1)" .
  show ?case
  proof (cases t1)
    case (Found e)
    with Cons.prems(1) r have req: "r = (Found e, s1\<lparr>route := set_at (route s1) depth (x nd, y nd)\<rparr>)"
      by simp
    show ?thesis
      unfolding found_ok_def
    proof (intro conjI allI impI)
      fix tn assume "fst r = Number tn"
      with req show "route (snd r) = route st" by simp
    next
      fix e' assume "fst r = Found e'" and len: "length (route st) \<le> depth"
      from ok Found len obtain p where p: "is_walk gr (diagonalMovement fd) p" "hd p = nb" "last p = goal"
        "route s1 = route st @ replicate (Suc depth - length (route st)) None @ coords p"
        "g + cost nd nb + walk_cost p + h fd goal goal * weight fd \<le> cutoff"
        unfolding found_ok_def by fastforce
      have ne: "p \<noteq> []" using p(1) by (rule is_walk_nonempty)
      have "route (snd r) = route st @ replicate (depth - length (route st)) None @ coords (nd # p)"
        using req p(4) set_at_pad [OF len] by (simp add: coords_def)
      moreover have "is_walk gr (diagonalMovement fd) (nd # p)"
        using p nb by (simp add: is_walk_Cons)
      moreover have "last (nd # p) = goal" using p ne by simp
      moreover have "g + walk_cost (nd # p) + h fd goal goal * weight fd \<le> cutoff"
        using p ne by (simp add: walk_cost_Cons)
      ultimately show "\<exists>p. is_walk gr (diagonalMovement fd) p \<and> hd p = nd \<and> last p = goal
            \<and> route (snd r) = route st @ replicate (depth - length (route st)) None @ coords p
            \<and> g + walk_cost p + h fd goal goal * weight fd \<le> cutoff"
        by (intro exI [of _ "nd # p"]) simp
    qed
  next
    case (Number t)
    let ?m = "if num_less t minv then t else minv"
    from Cons.prems(1) r Number
    have l: "neighbors_loop rec fd nd depth rest ?m (release fd nb s1) = Some r"
      by simp
    have "found_ok fd gr goal cutoff nd g depth (release fd nb s1) r"
      by (rule Cons.IH [OF l]) (use Cons.prems(2) in simp)
    moreover have "route (release fd nb s1) = route st"
      using ok Number by (simp add: found_ok_def)
    ultimately show ?thesis by (simp add: found_ok_def)
  qed
qed

lemma search_found_ok:
  assumes a: "search fd gr clock startTime goal nd g cutoff depth st = Some r"
  shows "found_ok fd gr goal cutoff nd g depth st r"
proof (rule search.raw_induct
    [where P = "\<lambda>fd gr clock startTime goal nd g cutoff depth st r.
                  found_ok fd gr goal cutoff nd g depth st r", OF _ a], goal_cases)
  case (1 rec fd gr clock startTime goal nd g cutoff depth st r)
  obtain ex s0 where tc: "time_check fd clock startTime (st\<lparr>visitedNode := Suc (visitedNode st)\<rparr>) = (ex, s0)"
    by (cases "time_check fd clock startTime (st\<lparr>visitedNode := Suc (visitedNode st)\<rparr>)")
  have rs: "route s0 = route st"
    using route_time_check [of fd clock startTime "st\<lparr>visitedNode := Suc (visitedNode st)\<rparr>"] tc by simp
  consider (expired) ex
    | (pruned) "\<not> ex" "cutoff < g + h fd nd goal * weight fd"
    | (goal) "\<not> ex" "\<not> cutoff < g + h fd nd goal * weight fd" "nd = goal"
    | (expand) "\<not> ex" "\<not> cutoff < g + h fd nd goal * weight fd" "nd \<noteq> goal"
    by blast
  then show ?case
  proof cases
    case expired
    with 1(2) tc rs show ?thesis by (auto simp: found_ok_def)
  next
    case pruned
    with 1(2) tc rs show ?thesis by (auto simp: found_ok_def)
  next
    case goal
    with 1(2) tc have req: "r = (Found nd, s0\<lparr>route := set_at (route s0) depth (x nd, y nd)\<rparr>)"
      by auto
    show ?thesis
      unfolding found_ok_def
    proof (intro conjI allI impI)
      fix tn assume "fst r = Number tn"
      with req show "route (snd r) = route st" by simp
    next
      fix e assume "fst r = Found e" and len: "length (route st) \<le> depth"
      have "route (snd r) = route st @ replicate (depth - length (route st)) None @ coords [nd]"
        using req rs set_at_end [OF len] by (simp add: coords_def)
      then show "\<exists>p. is_walk gr (diagonalMovement fd) p \<and> hd p = nd \<and> last p = goal
            \<and> route (snd r) = route st @ replicate (depth - length (route st)) None @ coords p
            \<and> g + walk_cost p + h fd goal goal * weight fd \<le> cutoff"
        using goal by (intro exI [of _ "[nd]"]) simp
    qed
  next
    case expand
    with 1(2) tc have l: "neighbors_loop
        (\<lambda>neighbor s. rec fd gr clock startTime goal neighbor (g + cost nd neighbor) cutoff (depth + 1) s)
        fd nd depth (getNeighbors gr nd (diagonalMovement fd)) Infinity s0 = Some r"
      by simp
    have "found_ok fd gr goal cutoff nd g depth s0 r"
    proof (rule loop_found_ok [OF _ l])
      fix nb s r'
      assume "rec fd gr clock startTime goal nb (g + cost nd nb) cutoff (depth + 1) s = Some r'"
      from 1(1) [OF this]
      show "found_ok fd gr goal cutoff nb (g + cost nd nb) (Suc depth) s r'" by simp
    qed simp
    with rs show ?thesis by (simp add: found_ok_def)
  qed
qed

section \<open>The sweeps find a reachable goal\<close>


lemma finite_bound_values:
  assumes fin: "finite V"
  shows "finite {v. bound_value fd goal V 0 v \<and> v \<le> B}"
proof -
  obtain M where M: "\<And>n. n \<in> V \<Longrightarrow> - M \<le> h fd n goal * weight fd"
  proof -
    have "finite ((\<lambda>n. - (h fd n goal * weight fd)) ` V)" using fin by simp
    then obtain M where "\<forall>v\<in>(\<lambda>n. - (h fd n goal * weight fd)) ` V. v \<le> M"
      by (meson bdd_above_def bdd_above_finite)
    then have "\<And>n. n \<in> V \<Longrightarrow> - M \<le> h fd n goal * weight fd" by force
    then show ?thesis by (rule that)
  qed
  define N where "N = nat \<lceil>B + M\<rceil>"
  define F where "F = (\<lambda>(a, b, n). real a + real b * sqrt 2 + h fd n goal * weight fd)"
  have "{v. bound_value fd goal V 0 v \<and> v \<le> B} \<subseteq> F ` ({..N} \<times> {..N} \<times> V)"
  proof
    fix v assume "v \<in> {v. bound_value fd goal V 0 v \<and> v \<le> B}"
    then obtain a b n where n: "n \<in> V" and v: "v = real a + real b * sqrt 2 + h fd n goal * weight fd"
      and le: "v \<le> B"
      by (auto simp: bound_value_def)
    have s: "real a + real b * sqrt 2 \<le> B + M"
      using M [OF n] v le by simp
    have "real b * 1 \<le> real b * sqrt 2"
      by (rule mult_left_mono) simp_all
    with s have "real a \<le> B + M" "real b \<le> B + M"
      by simp_all
    then have "a \<le> N" "b \<le> N"
      unfolding N_def by linarith+
    with n v show "v \<in> F ` ({..N} \<times> {..N} \<times> V)"
      unfolding F_def by force
  qed
  moreover have "finite (F ` ({..N} \<times> {..N} \<times> V))"
    using fin by simp
  ultimately show ?thesis by (rule finite_subset)
qed

lemma sweeps_finds_walk:
  assumes fin: "finite V"
    and closed: "\<forall>n\<in>V. set (getNeighbors gr n (diagonalMovement fd)) \<subseteq> V"
    and notime: "\<forall>n. \<not> expired_at fd clock n"
    and start: "start \<in> V"
    and w0: "is_walk gr (diagonalMovement fd) w0" "hd w0 = start" "last w0 = goal"
  shows "\<exists>p s. sweeps fd gr clock (clock 0) goal start c st = Some (coords p, s)
           \<and> is_walk gr (diagonalMovement fd) p \<and> hd p = start \<and> last p = goal
           \<and> (walk_cost p + h fd goal goal * weight fd \<le> c
              \<or> (\<forall>w. is_walk gr (diagonalMovement fd) w \<and> hd w = start \<and> last w = goal
                     \<longrightarrow> walk_cost p + h fd goal goal * weight fd \<le> walk_fmax fd goal 0 w))"
proof -
  define B where "B = walk_fmax fd goal 0 w0"
  define S where "S = (\<lambda>c. {v. bound_value fd goal V 0 v \<and> c < v \<and> v \<le> B})"
  have finS: "finite (S c)" for c
    unfolding S_def by (rule finite_subset [OF _ finite_bound_values [OF fin, of fd goal B]]) auto
  show ?thesis
  proof (induction "card (S c)" arbitrary: c st rule: less_induct)
    case less
    obtain t s1 where s: "search fd gr clock (clock 0) goal start 0 c 0 (st\<lparr>route := []\<rparr>) = Some (t, s1)"
      using search_returns [OF fin closed notime start, of goal 0 c 0 "st\<lparr>route := []\<rparr>"] by auto
    show ?case
    proof (cases t)
      case (Found e)
      from search_found_ok [OF s] Found
      obtain p where p: "is_walk gr (diagonalMovement fd) p" "hd p = start" "last p = goal"
        "route s1 = coords p" "walk_cost p + h fd goal goal * weight fd \<le> c"
        unfolding found_ok_def by fastforce
      have "sweeps fd gr clock (clock 0) goal start c st = Some (coords p, s1)"
        using sweeps_found [OF s [unfolded Found]] p(4) by simp
      with p show ?thesis by blast
    next
      case (Number tn)
      from search_bound_le [OF s [unfolded Number] notime w0]
      obtain v where v: "tn = Fin v" "v \<le> B" unfolding B_def by auto
      have sv: "search fd gr clock (clock 0) goal start 0 c 0 (st\<lparr>route := []\<rparr>) = Some (Number (Fin v), s1)"
        using s Number v by simp
      have cv: "c < v" using sv by (rule search_above_cutoff)
      have bv: "bound_value fd goal V 0 v" using sv start closed by (rule search_bound_value)
      have "v \<in> S c" "v \<notin> S v" "S v \<subseteq> S c"
        using cv bv v unfolding S_def by auto
      then have "S v \<subset> S c" by blast
      then have "card (S v) < card (S c)" using finS by (simp add: psubset_card_mono)
      from less [OF this, of s1]
      obtain p s' where p: "sweeps fd gr clock (clock 0) goal start v s1 = Some (coords p, s')"
        "is_walk gr (diagonalMovement fd) p" "hd p = start" "last p = goal"
        "walk_cost p + h fd goal goal * weight fd \<le> v
              \<or> (\<forall>w. is_walk gr (diagonalMovement fd) w \<and> hd w = start \<and> last w = goal
                     \<longrightarrow> walk_cost p + h fd goal goal * weight fd \<le> walk_fmax fd goal 0 w)"
        by blast
      have all: "\<forall>w. is_walk gr (diagonalMovement fd) w \<and> hd w = start \<and> last w = goal
                     \<longrightarrow> v \<le> walk_fmax fd goal 0 w"
      proof (intro allI impI, elim conjE)
        fix w assume "is_walk gr (diagonalMovement fd) w" "hd w = start" "last w = goal"
        from search_bound_le [OF sv notime this] show "v \<le> walk_fmax fd goal 0 w" by simp
      qed
      have "\<forall>w. is_walk gr (diagonalMovement fd) w \<and> hd w = start \<and> last w = goal
                     \<longrightarrow> walk_cost p + h fd goal goal * weight fd \<le> walk_fmax fd goal 0 w"
        using p(5) all by fastforce
      moreover have "sweeps fd gr clock (clock 0) goal start c st = Some (coords p, s')"
        using sweeps_again [OF sv] p(1) by simp
      ultimately show ?thesis using p(2-4) by blast
    qed
  qed
qed

lemma walk_fmax_le_cost:
  assumes adm: "admissible fd gr goal" and w1: "weight fd = 1"
  shows "is_walk gr (diagonalMovement fd) w \<Longrightarrow> last w = goal \<Longrightarrow>
         walk_fmax fd goal g w \<le> g + walk_cost w"
proof (induction w arbitrary: g rule: walk_cost.induct)
  case 1
  then show ?case by simp
next
  case (2 a)
  with adm have "h fd a goal \<le> 0"
    unfolding admissible_def by (metis is_walk.simps(2) last.simps list.sel(1) walk_cost.simps(2))
  then show ?case using w1 by simp
next
  case (3 a b rest)
  from adm 3(2,3) have "h fd a goal \<le> walk_cost (a # b # rest)"
    unfolding admissible_def by (metis list.sel(1))
  moreover have "walk_fmax fd goal (g + cost a b) (b # rest) \<le> g + cost a b + walk_cost (b # rest)"
    using 3 by simp
  ultimately show ?case using w1 by simp
qed


section \<open>The Manhattan distance on a grid without diagonal steps\<close>


lemma walkable_nbrs_cases:
  assumes "b \<in> set (walkable_nbrs cells a)"
  shows "(x b = x a \<and> (y b = y a - 1 \<or> y b = y a + 1))
         \<or> (y b = y a \<and> (x b = x a + 1 \<or> x b = x a - 1))"
proof -
  from assms have "b \<in> (\<lambda>(i, j). \<lparr>x = i, y = j\<rparr>) `
      set [(x a, y a - 1), (x a + 1, y a), (x a, y a + 1), (x a - 1, y a)]"
    unfolding walkable_nbrs_def set_map set_filter by blast
  then show ?thesis by auto
qed

lemma orth_step:
  assumes "b \<in> set (getNeighbors (orth_grid cells) a dm)"
  shows "cost a b = 1 \<and> manhattan_distance (abs (x goal - x a)) (abs (y goal - y a))
           \<le> 1 + manhattan_distance (abs (x goal - x b)) (abs (y goal - y b))"
proof -
  from assms have "b \<in> set (walkable_nbrs cells a)" by (simp add: orth_grid_def)
  from walkable_nbrs_cases [OF this] show ?thesis
    by (auto simp: cost_def manhattan_distance_def)
qed

lemma manhattan_le_walk_cost:
  "is_walk (orth_grid cells) dm w \<Longrightarrow>
   manhattan_distance (abs (x (last w) - x (hd w))) (abs (y (last w) - y (hd w))) \<le> walk_cost w"
proof (induction w rule: walk_cost.induct)
  case 1
  then show ?case by simp
next
  case (2 a)
  show ?case by (simp add: manhattan_distance_def)
next
  case (3 a b rest)
  then have "manhattan_distance (abs (x (last (b # rest)) - x b)) (abs (y (last (b # rest)) - y b))
      \<le> walk_cost (b # rest)"
    by simp
  moreover from 3(2) have "b \<in> set (getNeighbors (orth_grid cells) a dm)" by simp
  from orth_step [OF this, of "last (b # rest)"]
  have "cost a b = 1" "manhattan_distance (abs (x (last (b # rest)) - x a)) (abs (y (last (b # rest)) - y a))
           \<le> 1 + manhattan_distance (abs (x (last (b # rest)) - x b)) (abs (y (last (b # rest)) - y b))"
    by simp_all
  ultimately show ?case by simp
qed

lemma manhattan_admissible:
  "heuristic fd = manhattan_distance \<Longrightarrow> admissible fd (orth_grid cells) goal"
  unfolding admissible_def h_def using manhattan_le_walk_cost by auto

lemma detour_facts:
  "finite detour_nodes"
  "\<forall>n\<in>detour_nodes. set (getNeighbors (orth_grid detour_cells) n (diagonalMovement plain_finder)) \<subseteq> detour_nodes"
  "getNodeAt (orth_grid detour_cells) 0 0 \<in> detour_nodes"
  "\<forall>n. \<not> expired_at plain_finder (\<lambda>_. 0) n"
  "is_walk (orth_grid detour_cells) (diagonalMovement plain_finder) detour_walk"
  "hd detour_walk = getNodeAt (orth_grid detour_cells) 0 0"
  "last detour_walk = getNodeAt (orth_grid detour_cells) 2 0"
  by (simp_all add: detour_nodes_def detour_walk_def detour_cells_def orth_grid_def walkable_nbrs_def
      expired_at_def plain_finder_def)


section \<open>A call that finds no path releases every node\<close>

lemma counted_retain:
  "\<forall>n. counted (nodes s n) \<Longrightarrow> \<forall>n. counted (nodes (retain fd nb s) n)"
  by (auto simp: retain_def counted_def cnt_def split: option.splits)

lemma cnt_retain:
  "counted (nodes s nb) \<Longrightarrow> trackRecursion fd \<Longrightarrow>
   retainCount (nodes (retain fd nb s) nb) = Some (cnt (nodes s nb) + 1)"
  by (auto simp: retain_def counted_def cnt_def split: option.splits)

lemma restored_release:
  assumes c: "\<forall>n. counted (nodes s n)" and r: "restored (retain fd nb s) s1"
  shows "restored s (release fd nb s1)"
proof (cases "trackRecursion fd")
  case False
  with r show ?thesis by (simp add: retain_def release_def)
next
  case True
  from r have c1: "\<forall>n. counted (nodes s1 n)"
    and e1: "\<forall>n. cnt (nodes s1 n) = cnt (nodes (retain fd nb s) n)"
    by (simp_all add: restored_def)
  have k: "cnt (nodes s1 nb) = cnt (nodes s nb) + 1"
    using e1 cnt_retain [OF c [rule_format, of nb] True] by (simp add: cnt_def)
  have pos: "0 \<le> cnt (nodes s nb)" using c by (simp add: counted_def)
  with k c1 obtain c' where rc: "retainCount (nodes s1 nb) = Some c'" "c' = cnt (nodes s nb) + 1"
    by (cases "retainCount (nodes s1 nb)") (auto simp: cnt_def)
  have other: "\<And>n. n \<noteq> nb \<Longrightarrow> nodes (release fd nb s1) n = nodes s1 n
      \<and> cnt (nodes s1 n) = cnt (nodes s n)"
    using True rc e1 by (auto simp: release_def retain_def)
  have self: "cnt (nodes (release fd nb s1) nb) = cnt (nodes s nb)"
    "counted (nodes (release fd nb s1) nb)"
    using True rc pos c1 [rule_format, of nb] k
    by (auto simp: release_def cnt_def counted_def)
  show ?thesis
    unfolding restored_def
  proof (intro conjI allI)
    fix n show "counted (nodes (release fd nb s1) n)"
      using self other c1 by (cases "n = nb") auto
  next
    fix n show "cnt (nodes (release fd nb s1) n) = cnt (nodes s n)"
      using self other by (cases "n = nb") auto
  qed
qed

lemma restored_trans: "restored a b \<Longrightarrow> restored b c \<Longrightarrow> restored a c"
  by (simp add: restored_def)

lemma loop_restores:
  assumes rec: "\<And>nb s tn s'. rec nb s = Some (Number tn, s') \<Longrightarrow> \<forall>n. counted (nodes s n) \<Longrightarrow>
      restored s s'"
  shows "neighbors_loop rec fd nd depth ns minv st = Some (Number tn, st') \<Longrightarrow>
         \<forall>n. counted (nodes st n) \<Longrightarrow> restored st st'"
proof (induction ns arbitrary: minv st)
  case Nil
  then show ?case by (simp add: restored_def)
next
  case (Cons nb rest)
  from Cons.prems(1) obtain t1 s1 where r: "rec nb (retain fd nb st) = Some (t1, s1)"
    by (auto split: Option.bind_splits)
  show ?case
  proof (cases t1)
    case (Found e)
    with Cons.prems(1) r show ?thesis by simp
  next
    case (Number t)
    from Cons.prems(1) r Number
    have l: "neighbors_loop rec fd nd depth rest (if num_less t minv then t else minv)
        (release fd nb s1) = Some (Number tn, st')"
      by simp
    have "restored (retain fd nb st) s1"
      using rec [OF r [unfolded Number]] counted_retain [OF Cons.prems(2)] by simp
    then have a: "restored st (release fd nb s1)"
      by (rule restored_release [OF Cons.prems(2)])
    then have "\<forall>n. counted (nodes (release fd nb s1) n)" by (simp add: restored_def)
    from Cons.IH [OF l this] a show ?thesis by (rule restored_trans [rotated])
  qed
qed

lemma search_restores_aux:
  assumes a: "search fd gr clock startTime goal nd g cutoff depth st = Some r"
  shows "\<forall>tn. fst r = Number tn \<longrightarrow> (\<forall>n. counted (nodes st n)) \<longrightarrow> restored st (snd r)"
proof (rule search.raw_induct
    [where P = "\<lambda>fd gr clock startTime goal nd g cutoff depth st r.
       \<forall>tn. fst r = Number tn \<longrightarrow> (\<forall>n. counted (nodes st n)) \<longrightarrow> restored st (snd r)", OF _ a],
    goal_cases)
  case (1 rec fd gr clock startTime goal nd g cutoff depth st r)
  show ?case
  proof (intro allI impI)
    fix tn assume tn: "fst r = Number tn" and c: "\<forall>n. counted (nodes st n)"
    obtain ex s0 where tc: "time_check fd clock startTime (st\<lparr>visitedNode := Suc (visitedNode st)\<rparr>) = (ex, s0)"
      by (cases "time_check fd clock startTime (st\<lparr>visitedNode := Suc (visitedNode st)\<rparr>)")
    then have n0: "nodes s0 = nodes st"
      by (auto simp: time_check_def split: if_splits)
    consider (expired) ex
      | (pruned) "\<not> ex" "cutoff < g + h fd nd goal * weight fd"
      | (goal) "\<not> ex" "\<not> cutoff < g + h fd nd goal * weight fd" "nd = goal"
      | (expand) "\<not> ex" "\<not> cutoff < g + h fd nd goal * weight fd" "nd \<noteq> goal"
      by blast
    then show "restored st (snd r)"
    proof cases
      case expired
      with 1(2) tc n0 c show ?thesis by (auto simp: restored_def)
    next
      case pruned
      with 1(2) tc n0 c show ?thesis by (auto simp: restored_def)
    next
      case goal
      with 1(2) tc tn show ?thesis by auto
    next
      case expand
      with 1(2) tc tn have l: "neighbors_loop
          (\<lambda>neighbor s. rec fd gr clock startTime goal neighbor (g + cost nd neighbor) cutoff (depth + 1) s)
          fd nd depth (getNeighbors gr nd (diagonalMovement fd)) Infinity s0 = Some (Number tn, snd r)"
        by (cases r) simp
      have "restored s0 (snd r)"
      proof (rule loop_restores [OF _ l])
        fix nb s tn' s'
        assume "rec fd gr clock startTime goal nb (g + cost nd nb) cutoff (depth + 1) s = Some (Number tn', s')"
          and "\<forall>n. counted (nodes s n)"
        with 1(1) show "restored s s'" by fastforce
      qed (use c n0 in simp)
      with n0 show ?thesis by (simp add: restored_def)
    qed
  qed
qed

lemma sweeps_restores_aux:
  assumes a: "sweeps fd gr clock startTime goal start cutoff st = Some r"
  shows "fst r = [] \<longrightarrow> (\<forall>n. counted (nodes st n)) \<longrightarrow> restored st (snd r)"
proof (rule sweeps.raw_induct
    [where P = "\<lambda>fd gr clock startTime goal start cutoff st r.
       fst r = [] \<longrightarrow> (\<forall>n. counted (nodes st n)) \<longrightarrow> restored st (snd r)", OF _ a], goal_cases)
  case (1 rec fd gr clock startTime goal start cutoff st r)
  show ?case
  proof (intro impI)
    assume e: "fst r = []" and c: "\<forall>n. counted (nodes st n)"
    from 1(2) obtain t s1 where
      s: "search fd gr clock startTime goal start 0 cutoff 0 (st\<lparr>route := []\<rparr>) = Some (t, s1)"
      by (auto split: Option.bind_splits)
    show "restored st (snd r)"
    proof (cases t)
      case (Found e')
      from search_found_ok [OF s] Found obtain p where "is_walk gr (diagonalMovement fd) p"
        "route s1 = coords p"
        unfolding found_ok_def by fastforce
      then have "route s1 \<noteq> []" by (cases p) (simp_all add: coords_def)
      with 1(2) s Found e show ?thesis by auto
    next
      case (Number tn)
      from search_restores_aux [OF s] Number c have r1: "restored st s1"
        by (simp add: restored_def)
      show ?thesis
      proof (cases tn)
        case Infinity
        with 1(2) s Number r1 show ?thesis by auto
      next
        case (Fin v)
        with 1(2) s Number have "rec fd gr clock startTime goal start v s1 = Some r" by simp
        from 1(1) [OF this] e r1 have "restored s1 (snd r)" by (simp add: restored_def)
        with r1 show ?thesis by (rule restored_trans)
      qed
    qed
  qed
qed

lemma findPath_empty_restores:
  assumes "findPath fd clock nodes0 sx sy ex ey gr = Some ([], s)"
    and "\<forall>n. retainCount (nodes0 n) \<in> {None, Some 0} \<and> tested (nodes0 n) \<noteq> Some True"
  shows "retainCount (nodes s n) \<in> {None, Some 0} \<and> tested (nodes s n) \<noteq> Some True"
proof -
  have c: "\<forall>n. counted (nodes \<lparr>route = [], nodes = nodes0, visitedNode = 0, ticks = 1\<rparr> n)"
    and z: "\<forall>n. cnt (nodes0 n) = 0"
  proof -
    have "cnt (nodes0 n) = 0 \<and> tested (nodes0 n) \<noteq> Some True" for n
      using assms(2) [rule_format, of n] by (auto simp: cnt_def)
    then show "\<forall>n. counted (nodes \<lparr>route = [], nodes = nodes0, visitedNode = 0, ticks = 1\<rparr> n)"
      and "\<forall>n. cnt (nodes0 n) = 0"
      by (simp_all add: counted_def)
  qed
  from sweeps_restores_aux [OF assms(1) [unfolded findPath_def]] c
  have "restored \<lparr>route = [], nodes = nodes0, visitedNode = 0, ticks = 1\<rparr> s" by simp
  with z have "counted (nodes s n)" "cnt (nodes s n) = 0"
    by (simp_all add: restored_def)
  then show ?thesis
    by (auto simp: counted_def cnt_def split: option.splits)
qed

section \<open>The claims\<close>

text \<open>
  C1. The claim: after every call with recursion tracking, every node's \<^verbatim>\<open>retainCount\<close>
  is zero and its \<^verbatim>\<open>tested\<close> flag is false, also when a path was found. On the grid
  of the two cells (0,0) and (1,0), from (0,0) to (1,0), the call returns the path and
  leaves the goal's node with the count 1 and the flag set: the \<^verbatim>\<open>return t\<close> of line
  133 leaves the loop before line 136 releases the neighbour. (A call that returns the
  empty path does release every node: \<open>findPath_empty_restores\<close>.)
\<close>

theorem C1_found_path_stays_retained:
  "map_option
     (\<lambda>(p, st). (p, retainCount (nodes st \<lparr>x = 1, y = 0\<rparr>), tested (nodes st \<lparr>x = 1, y = 0\<rparr>)))
     (findPath (plain_finder\<lparr>trackRecursion := True\<rparr>) (\<lambda>_. 0) fresh 0 0 1 0
        (orth_grid [(0, 0), (1, 0)]))
   = Some ([Some (0, 0), Some (1, 0)], Some 1, Some True)"
  by (simp add: run_simps)

text \<open>
  C2, as the code has it. The cut-off of the first sweep is the heuristic's value for
  start and goal, not multiplied by the weight: it is the product exactly when the weight
  is 1 or that value is 0.
\<close>

theorem C2_initial_cutoff_unweighted:
  "initial_cutoff fd gr startX startY endX endY =
     heuristic fd (abs (x (getNodeAt gr endX endY) - x (getNodeAt gr startX startY)))
                  (abs (y (getNodeAt gr endX endY) - y (getNodeAt gr startX startY)))
   \<and> findPath fd clock nodes0 startX startY endX endY gr =
       sweeps fd gr clock (clock 0) (getNodeAt gr endX endY) (getNodeAt gr startX startY)
         (heuristic fd (abs (x (getNodeAt gr endX endY) - x (getNodeAt gr startX startY)))
                       (abs (y (getNodeAt gr endX endY) - y (getNodeAt gr startX startY))))
         \<lparr>route = [], nodes = nodes0, visitedNode = 0, ticks = 1\<rparr>
   \<and> (initial_cutoff fd gr startX startY endX endY =
        h fd (getNodeAt gr startX startY) (getNodeAt gr endX endY) * weight fd
      \<longleftrightarrow> weight fd = 1 \<or> h fd (getNodeAt gr startX startY) (getNodeAt gr endX endY) = 0)"
  by (auto simp add: findPath_def initial_cutoff_def h_def)

text \<open>
  C2, as the claim states it, fails with the weight 2 from (0,0) to (1,0): the cut-off of
  the first sweep is 1, the heuristic times the weight is 2.
\<close>

theorem C2_counterexample:
  "initial_cutoff (plain_finder\<lparr>weight := 2\<rparr>) (orth_grid [(0, 0), (1, 0)]) 0 0 1 0 \<noteq>
   h (plain_finder\<lparr>weight := 2\<rparr>) (getNodeAt (orth_grid [(0, 0), (1, 0)]) 0 0)
     (getNodeAt (orth_grid [(0, 0), (1, 0)]) 1 0) * weight (plain_finder\<lparr>weight := 2\<rparr>)"
  by (simp add: run_simps)

text \<open>
  C6. With a positive time limit: a node examined when the elapsed time is past the limit
  makes \<^verbatim>\<open>search\<close> return \<^verbatim>\<open>Infinity\<close>; when every reading of the clock from number
  \<open>k\<close> on is past the limit, \<^verbatim>\<open>findPath\<close> returns, and it returns the empty path if
  a node was examined at reading \<open>k\<close> or later. A limit of at most 0 given to the
  constructor makes the check never fire.
\<close>

theorem C6_time_limit:
  "(expired_at fd clock (ticks st) \<longrightarrow>
      search fd gr clock (clock 0) goal nd g cutoff depth st =
        Some (Number Infinity, st\<lparr>visitedNode := Suc (visitedNode st), ticks := Suc (ticks st)\<rparr>))
   \<and> ((\<forall>n\<ge>k. expired_at fd clock n) \<longrightarrow>
       (\<exists>p s1. findPath fd clock nodes0 sx sy ex ey gr' = Some (p, s1) \<and> (k < ticks s1 \<longrightarrow> p = [])))
   \<and> (l \<le> 0 \<longrightarrow>
        \<not> fst (time_check (IDAStarFinder H (opt\<lparr>opt_timeLimit := Some (Fin l)\<rparr>)) clock' startTime st')
        \<and> \<not> expired_at (IDAStarFinder H (opt\<lparr>opt_timeLimit := Some (Fin l)\<rparr>)) clock' n')"
proof (intro conjI impI)
  assume "expired_at fd clock (ticks st)"
  then show "search fd gr clock (clock 0) goal nd g cutoff depth st =
        Some (Number Infinity, st\<lparr>visitedNode := Suc (visitedNode st), ticks := Suc (ticks st)\<rparr>)"
    by (rule search_when_expired)
next
  assume "\<forall>n\<ge>k. expired_at fd clock n"
  then show "\<exists>p s1. findPath fd clock nodes0 sx sy ex ey gr' = Some (p, s1) \<and> (k < ticks s1 \<longrightarrow> p = [])"
    unfolding findPath_def by (rule sweeps_returns_ticks [where n = k]) simp
next
  assume "l \<le> 0"
  then show "\<not> fst (time_check (IDAStarFinder H (opt\<lparr>opt_timeLimit := Some (Fin l)\<rparr>)) clock' startTime st')"
    by (simp add: time_check_def IDAStarFinder_def Let_def)
next
  assume "l \<le> 0"
  then show "\<not> expired_at (IDAStarFinder H (opt\<lparr>opt_timeLimit := Some (Fin l)\<rparr>)) clock' n'"
    by (simp add: expired_at_def IDAStarFinder_def Let_def)
qed

theorem C6_witness:
  "expired_at one_second_finder late_clock 1
   \<and> (\<forall>n. expired_at one_second_finder late_clock (n + 1))
   \<and> (-1 :: real) \<le> 0
   \<and> search one_second_finder (orth_grid [(0, 0), (1, 0)]) late_clock (late_clock 0)
        \<lparr>x = 1, y = 0\<rparr> \<lparr>x = 0, y = 0\<rparr> 0 1 0
        \<lparr>route = [], nodes = fresh, visitedNode = 0, ticks = 1\<rparr>
      = Some (Number Infinity, \<lparr>route = [], nodes = fresh, visitedNode = 1, ticks = 2\<rparr>)
   \<and> (\<exists>s1. findPath one_second_finder late_clock fresh 0 0 1 0 (orth_grid [(0, 0), (1, 0)])
          = Some ([], s1) \<and> 1 < ticks s1)
   \<and> \<not> fst (time_check
              (IDAStarFinder core_heuristics (no_options\<lparr>opt_timeLimit := Some (Fin (-1))\<rparr>))
              late_clock 0 \<lparr>route = [], nodes = fresh, visitedNode = 0, ticks = 1\<rparr>)"
proof -
  have e: "\<forall>n\<ge>1. expired_at one_second_finder late_clock n"
    by (simp add: expired_at_def one_second_finder_def late_clock_def plain_finder_def)
  then have e1: "expired_at one_second_finder late_clock 1"
    by simp
  have t: "\<exists>s1. findPath one_second_finder late_clock fresh 0 0 1 0 (orth_grid [(0, 0), (1, 0)])
          = Some ([], s1) \<and> 1 < ticks s1"
    by (simp add: run_simps one_second_finder_def late_clock_def)
  show ?thesis
    using e e1 t
      C6_time_limit [of one_second_finder late_clock
        "\<lparr>route = [], nodes = fresh, visitedNode = 0, ticks = 1\<rparr>"
        "orth_grid [(0, 0), (1, 0)]" "\<lparr>x = 1, y = 0\<rparr>" "\<lparr>x = 0, y = 0\<rparr>" 0 1 0
        1 fresh 0 0 1 0 "orth_grid [(0, 0), (1, 0)]" "-1" core_heuristics no_options late_clock 0
        "\<lparr>route = [], nodes = fresh, visitedNode = 0, ticks = 1\<rparr>" 0]
    by simp
qed

text \<open>
  C8. When no time check fires and the grid's node at the coordinate carries that
  coordinate, \<^verbatim>\<open>findPath\<close> from a coordinate to itself returns the path of this one
  coordinate (after one sweep, or two when the weighted heuristic of the node to itself is
  above the unweighted one).
\<close>

theorem C8_start_is_goal:
  assumes "\<forall>n. \<not> expired_at fd clock n"
    and "getNodeAt gr sx sy = \<lparr>x = sx, y = sy\<rparr>"
  shows "map_option fst (findPath fd clock nodes0 sx sy sx sy gr) = Some [Some (sx, sy)]"
proof -
  define s where "s = getNodeAt gr sx sy"
  define c0 where "c0 = h fd s s"
  define f where "f = h fd s s * weight fd"
  have xy: "x s = sx" "y s = sy"
    using assms(2) by (simp_all add: s_def)
  have tc: "\<And>st. time_check fd clock (clock 0) st =
      (False, if num_pos (timeLimit fd) then st\<lparr>ticks := Suc (ticks st)\<rparr> else st)"
    using assms(1) by (simp add: time_check_not_expired)
  have found: "map_option fst (sweeps fd gr clock (clock 0) s s c st) = Some [Some (sx, sy)]"
    if "\<not> c < f" for c st
    using that by (subst sweeps.simps, subst search.simps) (simp add: tc f_def set_at_def xy)
  show ?thesis
  proof (cases "c0 < f")
    case False
    then show ?thesis
      using found [of c0] by (simp add: findPath_def initial_cutoff_def s_def c0_def)
  next
    case True
    have "\<And>st. sweeps fd gr clock (clock 0) s s c0 st =
        sweeps fd gr clock (clock 0) s s f
          (if num_pos (timeLimit fd)
           then st\<lparr>route := [], visitedNode := Suc (visitedNode st), ticks := Suc (ticks st)\<rparr>
           else st\<lparr>route := [], visitedNode := Suc (visitedNode st)\<rparr>)"
      using True
      by (subst sweeps.simps, subst search.simps) (simp add: tc f_def)
    then show ?thesis
      using found [of f] by (simp add: findPath_def initial_cutoff_def s_def c0_def)
  qed
qed

theorem C8_witness:
  "(\<forall>n. \<not> expired_at plain_finder (\<lambda>_. 0) n)
   \<and> getNodeAt (orth_grid [(2, 3)]) 2 3 = \<lparr>x = 2, y = 3\<rparr>
   \<and> map_option fst (findPath plain_finder (\<lambda>_. 0) fresh 2 3 2 3 (orth_grid [(2, 3)]))
       = Some [Some (2, 3)]"
proof -
  have a: "\<forall>n. \<not> expired_at plain_finder (\<lambda>_. 0) n"
    by (simp add: expired_at_def plain_finder_def)
  have b: "getNodeAt (orth_grid [(2, 3)]) 2 3 = \<lparr>x = 2, y = 3\<rparr>"
    by (simp add: orth_grid_def)
  show ?thesis
    using a b C8_start_is_goal [OF a b, of fresh] by simp
qed

text \<open>
  C10. The time check comes before the goal test: a call of \<^verbatim>\<open>search\<close> on the goal
  itself, at a reading of the clock past the limit, returns \<^verbatim>\<open>Infinity\<close> and writes no
  route; so \<^verbatim>\<open>findPath\<close> from a coordinate to itself returns the empty path when the
  first check fires.
\<close>

theorem C10_time_check_before_goal_test:
  "(expired_at fd clock (ticks st) \<longrightarrow>
      search fd gr clock (clock 0) goal goal g cutoff depth st =
        Some (Number Infinity, st\<lparr>visitedNode := Suc (visitedNode st), ticks := Suc (ticks st)\<rparr>))
   \<and> (expired_at fd clock 1 \<longrightarrow>
      map_option fst (findPath fd clock nodes0 sx sy sx sy gr') = Some [])"
proof (intro conjI impI)
  assume "expired_at fd clock (ticks st)"
  then show "search fd gr clock (clock 0) goal goal g cutoff depth st =
        Some (Number Infinity, st\<lparr>visitedNode := Suc (visitedNode st), ticks := Suc (ticks st)\<rparr>)"
    by (rule search_when_expired)
next
  assume e: "expired_at fd clock 1"
  show "map_option fst (findPath fd clock nodes0 sx sy sx sy gr') = Some []"
    unfolding findPath_def
    using e by (subst sweeps.simps, subst search_when_expired) simp_all
qed

theorem C10_witness:
  "expired_at one_second_finder late_clock 1
   \<and> search one_second_finder (orth_grid [(0, 0)]) late_clock (late_clock 0)
        \<lparr>x = 0, y = 0\<rparr> \<lparr>x = 0, y = 0\<rparr> 0 0 0
        \<lparr>route = [], nodes = fresh, visitedNode = 0, ticks = 1\<rparr>
      = Some (Number Infinity, \<lparr>route = [], nodes = fresh, visitedNode = 1, ticks = 2\<rparr>)
   \<and> map_option fst (findPath one_second_finder late_clock fresh 0 0 0 0 (orth_grid [(0, 0)]))
      = Some []"
  using C10_time_check_before_goal_test [of one_second_finder late_clock
      "\<lparr>route = [], nodes = fresh, visitedNode = 0, ticks = 1\<rparr>" "orth_grid [(0, 0)]"
      "\<lparr>x = 0, y = 0\<rparr>" 0 0 0 fresh 0 0 "orth_grid [(0, 0)]"]
  by (simp add: expired_at_def one_second_finder_def late_clock_def plain_finder_def)

text \<open>
  C5. The claim: with no time limit, a call whose goal is cut off from the start returns
  the empty path. On the corridor \<open>walled_cells\<close>, from (0,0) to (3,0), the call does
  not return: a walk may step back and forth between (0,0) and (1,0), so every sweep
  returns a finite bound, and line 155 never sees \<^verbatim>\<open>Infinity\<close>.
\<close>

theorem C5_unreachable_goal_never_returns:
  "findPath plain_finder clock nodes0 0 0 3 0 (orth_grid walled_cells) = None"
proof (cases "findPath plain_finder clock nodes0 0 0 3 0 (orth_grid walled_cells)")
  case None
  then show ?thesis .
next
  case (Some r)
  then have "sweeps plain_finder (orth_grid walled_cells) clock (clock 0) \<lparr>x = 3, y = 0\<rparr> \<lparr>x = 0, y = 0\<rparr>
      (initial_cutoff plain_finder (orth_grid walled_cells) 0 0 3 0)
       \<lparr>route = [], nodes = nodes0, visitedNode = 0, ticks = 1\<rparr> = Some r"
    by (simp add: findPath_def orth_grid_def)
  from sweeps_never_return_in_closed_region [OF this, of "{\<lparr>x = 0, y = 0\<rparr>, \<lparr>x = 1, y = 0\<rparr>}"]
  show ?thesis
    by (simp add: time_check_def plain_finder_def orth_grid_def walkable_nbrs_def walled_cells_def)
qed

text \<open>
  C7. The cut-offs of successive sweeps do not decrease: the cut-off with which a later
  iteration of the loop starts is at least (and, for a later iteration, above) that of an
  earlier one.
\<close>

theorem C7_cutoffs_increase:
  assumes "sweep_at fd gr clock startTime goal start j c st = Some (a, sa)"
    and "sweep_at fd gr clock startTime goal start (j + k) c st = Some (b, sb)"
  shows "a \<le> b \<and> (0 < k \<longrightarrow> a < b)"
  using assms(2)
proof (induction k arbitrary: b sb)
  case 0
  with assms(1) show ?case by simp
next
  case (Suc k)
  from Suc.prems have p: "sweep_at fd gr clock startTime goal start (Suc (j + k)) c st = Some (b, sb)"
    by simp
  from sweep_at_defined_before [OF p] obtain m sm where
    m: "sweep_at fd gr clock startTime goal start (j + k) c st = Some (m, sm)"
    by auto
  have "m < b" using m p by (rule sweep_at_step)
  moreover have "a \<le> m" using Suc.IH [OF m] by simp
  ultimately show ?case by simp
qed

theorem C7_witness:
  "sweep_at plain_finder (orth_grid detour_cells) (\<lambda>_. 0) 0 \<lparr>x = 2, y = 0\<rparr> \<lparr>x = 0, y = 0\<rparr> 0 2
      \<lparr>route = [], nodes = fresh, visitedNode = 0, ticks = 1\<rparr>
     = Some (2, \<lparr>route = [], nodes = fresh, visitedNode = 0, ticks = 1\<rparr>)
   \<and> sweep_at plain_finder (orth_grid detour_cells) (\<lambda>_. 0) 0 \<lparr>x = 2, y = 0\<rparr> \<lparr>x = 0, y = 0\<rparr> (0 + 1) 2
      \<lparr>route = [], nodes = fresh, visitedNode = 0, ticks = 1\<rparr>
     = Some (4, \<lparr>route = [], nodes = fresh, visitedNode = 2, ticks = 3\<rparr>)
   \<and> (2 :: real) < 4"
proof -
  have a: "sweep_at plain_finder (orth_grid detour_cells) (\<lambda>_. 0) 0 \<lparr>x = 2, y = 0\<rparr> \<lparr>x = 0, y = 0\<rparr> 0 2
      \<lparr>route = [], nodes = fresh, visitedNode = 0, ticks = 1\<rparr>
     = Some (2, \<lparr>route = [], nodes = fresh, visitedNode = 0, ticks = 1\<rparr>)"
    by simp
  have b: "sweep_at plain_finder (orth_grid detour_cells) (\<lambda>_. 0) 0 \<lparr>x = 2, y = 0\<rparr> \<lparr>x = 0, y = 0\<rparr> (0 + 1) 2
      \<lparr>route = [], nodes = fresh, visitedNode = 0, ticks = 1\<rparr>
     = Some (4, \<lparr>route = [], nodes = fresh, visitedNode = 2, ticks = 3\<rparr>)"
    by (simp add: run_simps detour_cells_def)
  show ?thesis
    using a b C7_cutoffs_increase [OF a b] by simp
qed

text \<open>
  C9. A call with recursion tracking and the same call without it return the same path
  (or both do not return), whatever the nodes' fields were before the two calls: the
  tracking writes fields of the nodes that the search never reads.
\<close>

theorem C9_tracking_does_not_change_the_path:
  "map_option fst (findPath (fd\<lparr>trackRecursion := True\<rparr>) clock nodes0 sx sy ex ey gr) =
   map_option fst (findPath (fd\<lparr>trackRecursion := False\<rparr>) clock nodes0' sx sy ex ey gr)"
proof (cases "findPath (fd\<lparr>trackRecursion := True\<rparr>) clock nodes0 sx sy ex ey gr")
  case None
  show ?thesis
  proof (cases "findPath (fd\<lparr>trackRecursion := False\<rparr>) clock nodes0' sx sy ex ey gr")
    case None': None
    with None show ?thesis by simp
  next
    case (Some r)
    from findPath_track_sim [of "fd\<lparr>trackRecursion := False\<rparr>" clock nodes0' sx sy ex ey gr "fst r" "snd r" True nodes0]
      Some None
    show ?thesis by simp
  qed
next
  case (Some r)
  from findPath_track_sim [of "fd\<lparr>trackRecursion := True\<rparr>" clock nodes0 sx sy ex ey gr "fst r" "snd r" False nodes0']
    Some
  show ?thesis by auto
qed

text \<open>
  C4. On a finite grid (a finite set of nodes that holds the start and the neighbours of
  its nodes), when the goal is reachable from the start and no time check fires,
  \<^verbatim>\<open>findPath\<close> returns a non-empty path that begins with the start's coordinate, ends
  with the goal's coordinate, and whose consecutive coordinates are neighbours under the
  finder's diagonal-movement policy.
\<close>

theorem C4_reachable_goal_is_found:
  assumes "finite V"
    and "\<forall>n\<in>V. set (getNeighbors gr n (diagonalMovement fd)) \<subseteq> V"
    and "getNodeAt gr sx sy \<in> V"
    and "\<forall>n. \<not> expired_at fd clock n"
    and "is_walk gr (diagonalMovement fd) w"
    and "hd w = getNodeAt gr sx sy" and "last w = getNodeAt gr ex ey"
  shows "\<exists>p s. findPath fd clock nodes0 sx sy ex ey gr = Some (coords p, s)
           \<and> coords p \<noteq> []
           \<and> hd (coords p) = Some (x (getNodeAt gr sx sy), y (getNodeAt gr sx sy))
           \<and> last (coords p) = Some (x (getNodeAt gr ex ey), y (getNodeAt gr ex ey))
           \<and> hd p = getNodeAt gr sx sy \<and> last p = getNodeAt gr ex ey
           \<and> is_walk gr (diagonalMovement fd) p"
proof -
  from sweeps_finds_walk [OF assms(1,2,4,3,5,6,7)]
  obtain p s where p: "findPath fd clock nodes0 sx sy ex ey gr = Some (coords p, s)"
    "is_walk gr (diagonalMovement fd) p" "hd p = getNodeAt gr sx sy" "last p = getNodeAt gr ex ey"
    unfolding findPath_def by blast
  from p(2) have ne: "p \<noteq> []" by (rule is_walk_nonempty)
  then have "coords p \<noteq> []"
    and "hd (coords p) = Some (x (hd p), y (hd p))"
    and "last (coords p) = Some (x (last p), y (last p))"
    by (simp_all add: coords_def hd_map last_map)
  with p show ?thesis by auto
qed

theorem C4_witness:
  "\<exists>p s. findPath plain_finder (\<lambda>_. 0) fresh 0 0 2 0 (orth_grid detour_cells) = Some (coords p, s)
           \<and> coords p \<noteq> []
           \<and> hd (coords p) = Some (0, 0) \<and> last (coords p) = Some (2, 0)
           \<and> is_walk (orth_grid detour_cells) (diagonalMovement plain_finder) p"
  using C4_reachable_goal_is_found [OF detour_facts, of fresh]
  by (auto simp: orth_grid_def)

text \<open>
  C3. On a finite grid, when the goal is reachable, no time check fires, the weight is 1
  and the heuristic is admissible (and not negative at the goal itself), the path that
  \<^verbatim>\<open>findPath\<close> returns costs no more than any walk from the start to the goal.
\<close>

theorem C3_path_is_cheapest:
  assumes "finite V"
    and "\<forall>n\<in>V. set (getNeighbors gr n (diagonalMovement fd)) \<subseteq> V"
    and "getNodeAt gr sx sy \<in> V"
    and "\<forall>n. \<not> expired_at fd clock n"
    and "is_walk gr (diagonalMovement fd) w"
    and "hd w = getNodeAt gr sx sy" and "last w = getNodeAt gr ex ey"
    and "weight fd = 1"
    and "admissible fd gr (getNodeAt gr ex ey)"
    and "0 \<le> heuristic fd 0 0"
  shows "\<exists>p s. findPath fd clock nodes0 sx sy ex ey gr = Some (coords p, s)
           \<and> is_walk gr (diagonalMovement fd) p
           \<and> hd p = getNodeAt gr sx sy \<and> last p = getNodeAt gr ex ey
           \<and> (\<forall>w'. is_walk gr (diagonalMovement fd) w' \<and> hd w' = getNodeAt gr sx sy
                    \<and> last w' = getNodeAt gr ex ey \<longrightarrow> walk_cost p \<le> walk_cost w')"
proof -
  let ?start = "getNodeAt gr sx sy" and ?goal = "getNodeAt gr ex ey"
  from sweeps_finds_walk [OF assms(1,2,4,3,5,6,7), of "initial_cutoff fd gr sx sy ex ey"
      "\<lparr>route = [], nodes = nodes0, visitedNode = 0, ticks = 1\<rparr>"]
  obtain p s where p: "findPath fd clock nodes0 sx sy ex ey gr = Some (coords p, s)"
    "is_walk gr (diagonalMovement fd) p" "hd p = ?start" "last p = ?goal"
    "walk_cost p + h fd ?goal ?goal * weight fd \<le> initial_cutoff fd gr sx sy ex ey
       \<or> (\<forall>w. is_walk gr (diagonalMovement fd) w \<and> hd w = ?start \<and> last w = ?goal
               \<longrightarrow> walk_cost p + h fd ?goal ?goal * weight fd \<le> walk_fmax fd ?goal 0 w)"
    unfolding findPath_def by blast
  have hg: "0 \<le> h fd ?goal ?goal * weight fd"
    using assms(8,10) by (simp add: h_def)
  have "walk_cost p \<le> walk_cost w'"
    if w': "is_walk gr (diagonalMovement fd) w'" "hd w' = ?start" "last w' = ?goal" for w'
  proof -
    have a: "initial_cutoff fd gr sx sy ex ey \<le> walk_cost w'"
      using assms(9) w' unfolding admissible_def initial_cutoff_def by metis
    have b: "walk_fmax fd ?goal 0 w' \<le> walk_cost w'"
      using walk_fmax_le_cost [OF assms(9,8) w'(1,3), of 0] by simp
    from p(5) show ?thesis
    proof
      assume "walk_cost p + h fd ?goal ?goal * weight fd \<le> initial_cutoff fd gr sx sy ex ey"
      with a hg show ?thesis by simp
    next
      assume "\<forall>w. is_walk gr (diagonalMovement fd) w \<and> hd w = ?start \<and> last w = ?goal
               \<longrightarrow> walk_cost p + h fd ?goal ?goal * weight fd \<le> walk_fmax fd ?goal 0 w"
      with w' have "walk_cost p + h fd ?goal ?goal * weight fd \<le> walk_fmax fd ?goal 0 w'" by blast
      with b hg show ?thesis by simp
    qed
  qed
  with p(1-4) show ?thesis by blast
qed

theorem C3_witness:
  "\<exists>p s. findPath plain_finder (\<lambda>_. 0) fresh 0 0 2 0 (orth_grid detour_cells) = Some (coords p, s)
           \<and> is_walk (orth_grid detour_cells) (diagonalMovement plain_finder) p
           \<and> hd p = getNodeAt (orth_grid detour_cells) 0 0 \<and> last p = getNodeAt (orth_grid detour_cells) 2 0
           \<and> walk_cost p \<le> walk_cost detour_walk"
proof -
  have w: "weight plain_finder = 1" "0 \<le> heuristic plain_finder 0 0"
    "heuristic plain_finder = manhattan_distance"
    by (simp_all add: plain_finder_def manhattan_distance_def)
  from C3_path_is_cheapest [OF detour_facts w(1) manhattan_admissible [OF w(3)] w(2), of fresh]
    detour_facts(5-7)
  show ?thesis by blast
qed

end
